theory Spec2Isabelle
  imports
    Complex_Main
    "HOL-Library.Char_ord"
    "HOL-Library.List_Lexorder"
    "HOL-Library.AList"
begin

section \<open>JSON values as Python sees them\<close>

text \<open>
  \<^verbatim>\<open>json.load\<close> yields \<^verbatim>\<open>None\<close>, \<^verbatim>\<open>bool\<close>, \<^verbatim>\<open>int\<close>, \<^verbatim>\<open>float\<close>, \<^verbatim>\<open>str\<close>,
  \<^verbatim>\<open>list\<close> and \<^verbatim>\<open>dict\<close>. A float is a rational, one of the two infinities
  (\<^verbatim>\<open>float('inf')\<close>, \<^verbatim>\<open>float('-inf')\<close>, which \<^verbatim>\<open>get_sort_value\<close> also substitutes)
  or NaN, which \<^verbatim>\<open>json.load\<close> reads from the text \<^verbatim>\<open>NaN\<close>. A dict is an association
  list in insertion order whose keys are distinct; a key is looked up with \<open>map_of\<close>.
\<close>

datatype pyfloat = NegInf | Finite rat | PosInf | NaN

datatype json =
    JNull
  | JBool bool
  | JInt int
  | JFloat pyfloat
  | JStr string
  | JList "json list"
  | JDict "(string \<times> json) list"

text \<open>
  The exceptions the sorter can raise; \<open>KeyError\<close> carries its argument.
  \<open>SystemExit\<close> is \<^verbatim>\<open>sys.exit(1)\<close>.
\<close>

datatype error = ValueError | KeyError string | TypeError | AttributeError | SystemExit

text \<open>\<^verbatim>\<open><\<close> on floats: every comparison with NaN is false.\<close>

fun float_lt :: "pyfloat \<Rightarrow> pyfloat \<Rightarrow> bool" where
  "float_lt NaN b = False"
| "float_lt a NaN = False"
| "float_lt NegInf b = (b \<noteq> NegInf)"
| "float_lt (Finite x) (Finite y) = (x < y)"
| "float_lt (Finite x) PosInf = True"
| "float_lt (Finite x) NegInf = False"
| "float_lt PosInf b = False"

text \<open>
  The numeric value of a Python number: \<^verbatim>\<open>bool\<close> is a subclass of \<^verbatim>\<open>int\<close>
  (\<^verbatim>\<open>True == 1\<close>), and \<^verbatim>\<open>int\<close> and \<^verbatim>\<open>float\<close> compare by value.
\<close>

fun num_of :: "json \<Rightarrow> pyfloat option" where
  "num_of (JBool b) = Some (Finite (if b then 1 else 0))"
| "num_of (JInt i) = Some (Finite (of_int i))"
| "num_of (JFloat f) = Some f"
| "num_of _ = None"

lemma size_mem_list: "z \<in> set xs \<Longrightarrow> size z < Suc (size_list size xs)"
  by (induction xs) auto

lemma size_mem_dict:
  "(k, v) \<in> set d \<Longrightarrow> size v < Suc (size_list (size_prod (\<lambda>x. 0) size) d)"
  by (induction d) auto

lemma size_map_of:
  "map_of d k = Some w \<Longrightarrow> size w < Suc (size_list (size_prod (\<lambda>x. 0) size) d)"
  by (induction d) (auto split: if_splits)

text \<open>
  Equality as tuples, lists and dicts test it on their elements (identity, or else
  \<^verbatim>\<open>==\<close>): numbers by value, strings and \<^verbatim>\<open>None\<close> by content, lists elementwise,
  dicts by their key sets and the values under each key, whatever the insertion
  order. Values of different kinds are unequal; nothing raises. \<^verbatim>\<open>json.load\<close>
  yields one and the same object for every \<^verbatim>\<open>NaN\<close> of a document, so that NaN is
  equal to NaN here by identity (and to no other number).
\<close>

function py_eq :: "json \<Rightarrow> json \<Rightarrow> bool" where
  "py_eq JNull b = (b = JNull)"
| "py_eq (JStr s) b = (b = JStr s)"
| "py_eq (JList xs) b = (case b of JList ys \<Rightarrow> list_all2 py_eq xs ys | _ \<Rightarrow> False)"
| "py_eq (JDict d) b = (case b of
      JDict e \<Rightarrow>
        list_all (\<lambda>(k, v). case map_of e k of None \<Rightarrow> False | Some w \<Rightarrow> py_eq v w) d \<and>
        list_all (\<lambda>(k, w). case map_of d k of None \<Rightarrow> False | Some v \<Rightarrow> py_eq w v) e
    | _ \<Rightarrow> False)"
| "py_eq (JBool p) b = (num_of b = num_of (JBool p))"
| "py_eq (JInt i) b = (num_of b = num_of (JInt i))"
| "py_eq (JFloat f) b = (num_of b = Some f)"
  by pat_completeness auto
termination
proof (relation "measure (\<lambda>(a, b). size a + size b)", goal_cases)
  case 1
  show ?case by simp
next
  case (2 xs b ys x y)
  then show ?case
    using size_mem_list[of x xs] size_mem_list[of y ys] by simp
next
  case (3 d b e kv k v w)
  then show ?case
    using size_mem_dict[of k v d] size_map_of[of e k w] by simp
next
  case (4 d b e kv k w v)
  then show ?case
    using size_mem_dict[of k w e] size_map_of[of d k v] by simp
qed

text \<open>
  Python's \<^verbatim>\<open><\<close>. Numbers compare with numbers, strings with strings (by code
  point), lists with lists; every other pair raises \<^verbatim>\<open>TypeError\<close>. Lists and tuples
  compare alike: the first position where the two differ under \<^verbatim>\<open>==\<close> decides,
  by \<^verbatim>\<open><\<close> on the two elements there; when one runs out, the shorter is the smaller.
  \<open>lt_list\<close> is therefore also the comparison of two sort-key tuples.
\<close>

fun py_lt :: "json \<Rightarrow> json \<Rightarrow> error + bool"
  and lt_list :: "json list \<Rightarrow> json list \<Rightarrow> error + bool" where
  "py_lt (JStr s) (JStr t) = Inr (s < t)"
| "py_lt (JList xs) (JList ys) = lt_list xs ys"
| "py_lt a b = (case (num_of a, num_of b) of
      (Some x, Some y) \<Rightarrow> Inr (float_lt x y)
    | _ \<Rightarrow> Inl TypeError)"
| "lt_list [] [] = Inr False"
| "lt_list [] (y # ys) = Inr True"
| "lt_list (x # xs) [] = Inr False"
| "lt_list (x # xs) (y # ys) = (if py_eq x y then lt_list xs ys else py_lt x y)"

text \<open>\<^verbatim>\<open>key in item\<close> and \<^verbatim>\<open>item[key]\<close> for a string \<open>key\<close>.\<close>

fun is_substring :: "string \<Rightarrow> string \<Rightarrow> bool" where
  "is_substring k [] = (k = [])"
| "is_substring k (c # cs) = (take (length k) (c # cs) = k \<or> is_substring k cs)"

fun py_contains :: "json \<Rightarrow> string \<Rightarrow> error + bool" where
  "py_contains (JDict d) key = Inr (map_of d key \<noteq> None)"
| "py_contains (JStr s) key = Inr (is_substring key s)"
| "py_contains (JList xs) key = Inr (list_ex (\<lambda>x. py_eq x (JStr key)) xs)"
| "py_contains _ key = Inl TypeError"

fun py_getitem :: "json \<Rightarrow> string \<Rightarrow> error + json" where
  "py_getitem (JDict d) key = (case map_of d key of None \<Rightarrow> Inl (KeyError key) | Some v \<Rightarrow> Inr v)"
| "py_getitem _ key = Inl TypeError"

section \<open>The sort engine: \<^verbatim>\<open>sort_json_data\<close>\<close>

text \<open>
  A generator that may raise: the elements are computed from left to right and the
  first exception ends the run.
\<close>

fun collect :: "('a \<Rightarrow> error + 'b) \<Rightarrow> 'a list \<Rightarrow> error + 'b list" where
  "collect f [] = Inr []"
| "collect f (x # xs) = (case f x of
      Inl e \<Rightarrow> Inl e
    | Inr y \<Rightarrow> (case collect f xs of Inl e \<Rightarrow> Inl e | Inr ys \<Rightarrow> Inr (y # ys)))"

text \<open>
  \<^verbatim>\<open>get_sort_value(item, key, is_reverse)\<close>, with the enclosing
  \<^verbatim>\<open>missing_key_strategy\<close> as first argument. When the key is absent and the strategy
  is none of the three names, control falls through to \<^verbatim>\<open>item[key]\<close>.
\<close>

definition key_not_found :: "string \<Rightarrow> string" where
  "key_not_found key = ''Key '' @ [CHR 0x27] @ key @ [CHR 0x27] @ '' not found in item''"

definition get_sort_value :: "string \<Rightarrow> json \<Rightarrow> string \<Rightarrow> bool \<Rightarrow> error + json" where
  "get_sort_value missing_key_strategy item key is_reverse =
    (case py_contains item key of
      Inl e \<Rightarrow> Inl e
    | Inr present \<Rightarrow>
        if \<not> present \<and> missing_key_strategy = ''error'' then Inl (KeyError (key_not_found key))
        else if \<not> present \<and> missing_key_strategy = ''first'' then
          Inr (JFloat (if \<not> is_reverse then NegInf else PosInf))
        else if \<not> present \<and> missing_key_strategy = ''last'' then
          Inr (JFloat (if \<not> is_reverse then PosInf else NegInf))
        else (case py_getitem item key of
          Inl e \<Rightarrow> Inl e
        | Inr v \<Rightarrow>
            if v = JNull then Inr (JFloat (if \<not> is_reverse then NegInf else PosInf))
            else Inr v))"

text \<open>\<^verbatim>\<open>sort_key(item)\<close>: the tuple of the sort values over \<^verbatim>\<open>zip(sort_keys, reverse_list)\<close>.\<close>

definition sort_key_of :: "string \<Rightarrow> string list \<Rightarrow> bool list \<Rightarrow> json \<Rightarrow> error + json list" where
  "sort_key_of missing_key_strategy sort_keys reverse_list item =
    collect (\<lambda>(key, rev). get_sort_value missing_key_strategy item key rev)
      (zip sort_keys reverse_list)"

text \<open>
  \<^verbatim>\<open>sorted(data, key=sort_key)\<close>. The key of every element is computed first, in
  order. The elements are then sorted by their keys with \<^verbatim>\<open><\<close> alone, and a
  comparison that raises ends the sort. The model is the sort of CPython 3.11 for
  a list of fewer than 64 elements (a longer list is cut into runs of 32 to 64
  elements, each sorted this way, which are then merged):
  \<^item> \<open>count_run\<close> finds the run at the start of the list, either ascending
    (no element smaller than the one before it) or strictly descending, comparing
    each element with the one before it until the run breaks;
  \<^item> a descending run is reversed;
  \<^item> \<open>binarysort\<close> inserts the remaining elements one by one: \<open>binary_insert\<close>
    compares the element with the middle of the part of the sorted prefix that is
    still in question and goes on to the left of it when the element is smaller,
    to the right when it is not.
\<close>

fun run_ascending :: "json list \<times> 'a \<Rightarrow> (json list \<times> 'a) list \<Rightarrow> error + nat" where
  "run_ascending prev [] = Inr 0"
| "run_ascending prev (x # xs) = (case lt_list (fst x) (fst prev) of
      Inl e \<Rightarrow> Inl e
    | Inr True \<Rightarrow> Inr 0
    | Inr False \<Rightarrow> (case run_ascending x xs of Inl e \<Rightarrow> Inl e | Inr n \<Rightarrow> Inr (Suc n)))"

fun run_descending :: "json list \<times> 'a \<Rightarrow> (json list \<times> 'a) list \<Rightarrow> error + nat" where
  "run_descending prev [] = Inr 0"
| "run_descending prev (x # xs) = (case lt_list (fst x) (fst prev) of
      Inl e \<Rightarrow> Inl e
    | Inr True \<Rightarrow> (case run_descending x xs of Inl e \<Rightarrow> Inl e | Inr n \<Rightarrow> Inr (Suc n))
    | Inr False \<Rightarrow> Inr 0)"

fun count_run :: "(json list \<times> 'a) list \<Rightarrow> error + nat \<times> bool" where
  "count_run [] = Inr (0, False)"
| "count_run [x] = Inr (1, False)"
| "count_run (x # y # ys) = (case lt_list (fst y) (fst x) of
      Inl e \<Rightarrow> Inl e
    | Inr True \<Rightarrow> (case run_descending y ys of Inl e \<Rightarrow> Inl e | Inr n \<Rightarrow> Inr (n + 2, True))
    | Inr False \<Rightarrow> (case run_ascending y ys of Inl e \<Rightarrow> Inl e | Inr n \<Rightarrow> Inr (n + 2, False)))"

function binary_insert ::
  "json list \<times> 'a \<Rightarrow> (json list \<times> 'a) list \<Rightarrow> error + (json list \<times> 'a) list" where
  "binary_insert pivot w =
    (if w = [] then Inr [pivot]
     else (case lt_list (fst pivot) (fst (w ! (length w div 2))) of
        Inl e \<Rightarrow> Inl e
      | Inr True \<Rightarrow>
          (case binary_insert pivot (take (length w div 2) w) of
            Inl e \<Rightarrow> Inl e
          | Inr l \<Rightarrow> Inr (l @ drop (length w div 2) w))
      | Inr False \<Rightarrow>
          (case binary_insert pivot (drop (Suc (length w div 2)) w) of
            Inl e \<Rightarrow> Inl e
          | Inr r \<Rightarrow> Inr (take (Suc (length w div 2)) w @ r))))"
  by pat_completeness auto
termination
  by (relation "measure (\<lambda>(pivot, w). length w)") auto

declare binary_insert.simps [simp del]

fun binarysort :: "(json list \<times> 'a) list \<Rightarrow> (json list \<times> 'a) list \<Rightarrow> error + (json list \<times> 'a) list" where
  "binarysort run [] = Inr run"
| "binarysort run (pivot # rest) = (case binary_insert pivot run of
      Inl e \<Rightarrow> Inl e
    | Inr run' \<Rightarrow> binarysort run' rest)"

definition listsort :: "(json list \<times> 'a) list \<Rightarrow> error + (json list \<times> 'a) list" where
  "listsort ps =
    (case count_run ps of
      Inl e \<Rightarrow> Inl e
    | Inr (n, descending) \<Rightarrow>
        binarysort (if descending then rev (take n ps) else take n ps) (drop n ps))"

definition py_sorted :: "('a \<Rightarrow> error + json list) \<Rightarrow> 'a list \<Rightarrow> error + 'a list" where
  "py_sorted keyf xs =
    (case collect keyf xs of
      Inl e \<Rightarrow> Inl e
    | Inr ks \<Rightarrow> (case listsort (zip ks xs) of
        Inl e \<Rightarrow> Inl e
      | Inr ps \<Rightarrow> Inr (map snd ps)))"

text \<open>
  The \<^verbatim>\<open>reverse\<close> argument is one bool or a list of bools; \<open>normalize_reverse\<close> is
  the block that turns it into \<^verbatim>\<open>reverse_list\<close>.
\<close>

datatype reverse_arg = RBool bool | RList "bool list"

definition normalize_reverse :: "string list \<Rightarrow> reverse_arg \<Rightarrow> error + bool list" where
  "normalize_reverse sort_keys reverse =
    (case reverse of
      RBool b \<Rightarrow> Inr (replicate (length sort_keys) b)
    | RList rs \<Rightarrow> if length rs \<noteq> length sort_keys then Inl ValueError else Inr rs)"

text \<open>
  The dict with exactly one entry whose value is a list (the first branch of
  \<^verbatim>\<open>sort_json_data\<close>).
\<close>

fun single_list_entry :: "json \<Rightarrow> (string \<times> json list) option" where
  "single_list_entry (JDict [(key, JList v)]) = Some (key, v)"
| "single_list_entry _ = None"

lemma single_list_entry_size:
  "single_list_entry data = Some (key, v) \<Longrightarrow> size (JList v) < size data"
  by (induction data rule: single_list_entry.induct) auto

text \<open>
  \<^verbatim>\<open>sort_json_data(data, sort_keys, reverse, missing_key_strategy)\<close>. The first
  argument stands for \<^verbatim>\<open>json.loads\<close>, which the function applies when \<^verbatim>\<open>data\<close>
  is a string.
\<close>

function sort_json_data ::
  "(string \<Rightarrow> error + json) \<Rightarrow> json \<Rightarrow> string list \<Rightarrow> reverse_arg \<Rightarrow> string \<Rightarrow> error + json" where
  "sort_json_data loads data sort_keys reverse missing_key_strategy =
    (case single_list_entry data of
      Some (key, v) \<Rightarrow>
        (case sort_json_data loads (JList v) sort_keys reverse missing_key_strategy of
          Inl e \<Rightarrow> Inl e
        | Inr sorted_list \<Rightarrow> Inr (JDict [(key, sorted_list)]))
    | None \<Rightarrow>
        (case (case (case data of JDict d \<Rightarrow> JList [data] | _ \<Rightarrow> data) of
                JStr s \<Rightarrow> loads s
              | data1 \<Rightarrow> Inr data1) of
          Inl e \<Rightarrow> Inl e
        | Inr (JList items) \<Rightarrow>
            (case normalize_reverse sort_keys reverse of
              Inl e \<Rightarrow> Inl e
            | Inr reverse_list \<Rightarrow>
                (case py_sorted (sort_key_of missing_key_strategy sort_keys reverse_list) items of
                  Inl e \<Rightarrow> Inl e
                | Inr sorted_data \<Rightarrow> Inr (JList sorted_data)))
        | Inr data2 \<Rightarrow> Inr data2))"
  by pat_completeness auto
termination
  by (relation "measure (\<lambda>(loads, data, sort_keys, reverse, s). size data)")
    (auto dest: single_list_entry_size)

declare sort_json_data.simps [simp del]

section \<open>Dot-path keys: \<^verbatim>\<open>prepare_data_with_nested_keys\<close>\<close>

text \<open>\<^verbatim>\<open>key_path.split('.')\<close>: the pieces between the dots, empty pieces included.\<close>

fun split_dot :: "string \<Rightarrow> string list" where
  "split_dot [] = [[]]"
| "split_dot (c # cs) =
    (if c = CHR ''.'' then [] # split_dot cs
     else (case split_dot cs of w # ws \<Rightarrow> (c # w) # ws | [] \<Rightarrow> [[c]]))"

definition key_not_in_path :: "string \<Rightarrow> string \<Rightarrow> string" where
  "key_not_in_path key key_path =
    ''Key '' @ [CHR 0x27] @ key @ [CHR 0x27] @ '' not found in path '' @ [CHR 0x27] @ key_path @ [CHR 0x27]"

text \<open>The loop of \<^verbatim>\<open>get_nested_value\<close> over the pieces of the path.\<close>

fun nested_walk :: "json \<Rightarrow> string list \<Rightarrow> string \<Rightarrow> error + json" where
  "nested_walk v [] key_path = Inr v"
| "nested_walk v (key # keys) key_path =
    (case v of
      JDict d \<Rightarrow> (case map_of d key of
          Some w \<Rightarrow> nested_walk w keys key_path
        | None \<Rightarrow> Inl (KeyError (key_not_in_path key key_path)))
    | _ \<Rightarrow> Inl (KeyError (key_not_in_path key key_path)))"

definition get_nested_value :: "json \<Rightarrow> string \<Rightarrow> error + json" where
  "get_nested_value item key_path = nested_walk item (split_dot key_path) key_path"

text \<open>
  One round of the inner loop of \<^verbatim>\<open>prepare_data_with_nested_keys\<close> on the copy
  \<^verbatim>\<open>flat_item\<close>: a key with a dot is bound to the nested value of the original item,
  or to \<^verbatim>\<open>None\<close> when \<^verbatim>\<open>get_nested_value\<close> raises (it raises \<open>KeyError\<close> only).
  \<^verbatim>\<open>flat_item[key_path] = value\<close> replaces the value of a key in place and appends a
  new key, as \<open>AList.update\<close> does.
\<close>

definition flatten_key :: "json \<Rightarrow> string \<Rightarrow> (string \<times> json) list \<Rightarrow> (string \<times> json) list" where
  "flatten_key item key_path flat_item =
    (if CHR ''.'' \<in> set key_path then
       AList.update key_path
         (case get_nested_value item key_path of Inr v \<Rightarrow> v | Inl e \<Rightarrow> JNull) flat_item
     else flat_item)"

text \<open>
  The body of the outer loop. An item that is no dict has no item assignment by a
  string (a list) or no \<^verbatim>\<open>copy\<close> method at all.
\<close>

fun prepare_item :: "string list \<Rightarrow> json \<Rightarrow> error + json" where
  "prepare_item sort_keys (JDict d) = Inr (JDict (fold (flatten_key (JDict d)) sort_keys d))"
| "prepare_item sort_keys (JList xs) =
    (if \<exists>key_path \<in> set sort_keys. CHR ''.'' \<in> set key_path then Inl TypeError
     else Inr (JList xs))"
| "prepare_item sort_keys _ = Inl AttributeError"

definition prepare_data_with_nested_keys :: "json list \<Rightarrow> string list \<Rightarrow> error + json list" where
  "prepare_data_with_nested_keys data sort_keys = collect (prepare_item sort_keys) data"

section \<open>The command line: \<^verbatim>\<open>main\<close>\<close>

text \<open>
  The part of \<^verbatim>\<open>main\<close> between loading the document and saving the result, as a
  function of the loaded \<^verbatim>\<open>data\<close> and of \<^verbatim>\<open>args.keys\<close>, \<^verbatim>\<open>args.reverse\<close> (absent
  or a list of bools) and \<^verbatim>\<open>args.missing_key\<close>; its value is \<^verbatim>\<open>sorted_data\<close>.

  \<open>parse_reverse\<close> is the block that reads \<^verbatim>\<open>args.reverse\<close>: one flag applies to all
  keys, and a number of flags other than the number of keys ends the program.
\<close>

definition parse_reverse :: "string list \<Rightarrow> bool list option \<Rightarrow> error + reverse_arg" where
  "parse_reverse keys reverse =
    (case reverse of
      None \<Rightarrow> Inr (RBool False)
    | Some [] \<Rightarrow> Inr (RBool False)
    | Some [r] \<Rightarrow> Inr (RBool r)
    | Some rs \<Rightarrow> if length rs \<noteq> length keys then Inl SystemExit else Inr (RList rs))"

text \<open>
  The comprehension that removes the flattened keys from one sorted item:
  \<^verbatim>\<open>{k: v for k, v in item.items() if k not in args.keys or '.' not in k}\<close>.
\<close>

fun restore_item :: "string list \<Rightarrow> json \<Rightarrow> error + json" where
  "restore_item keys (JDict d) =
    Inr (JDict (filter (\<lambda>(k, v). k \<notin> set keys \<or> CHR ''.'' \<notin> set k) d))"
| "restore_item keys _ = Inl AttributeError"

text \<open>
  The \<^verbatim>\<open>try\<close> block: the sort, the removal of the flattened keys (when the keys
  were flattened and the result is a list) and the unwrapping of a single dict.
\<close>

definition sort_and_restore ::
  "(string \<Rightarrow> error + json) \<Rightarrow> json \<Rightarrow> json \<Rightarrow> string list \<Rightarrow> reverse_arg \<Rightarrow> string
    \<Rightarrow> error + json" where
  "sort_and_restore loads data data_to_sort keys reverse_arg missing_key =
    (case sort_json_data loads data_to_sort keys reverse_arg missing_key of
      Inl e \<Rightarrow> Inl e
    | Inr sorted_data \<Rightarrow>
        (case (case (data, sorted_data) of
                (JList xs, JList ys) \<Rightarrow>
                  if \<exists>key \<in> set keys. CHR ''.'' \<in> set key then
                    (case collect (restore_item keys) ys of
                      Inl e \<Rightarrow> Inl e
                    | Inr restored_data \<Rightarrow> Inr (JList restored_data))
                  else Inr sorted_data
              | _ \<Rightarrow> Inr sorted_data) of
          Inl e \<Rightarrow> Inl e
        | Inr sorted_data \<Rightarrow>
            (case (data, sorted_data) of
              (JDict d, JList [x]) \<Rightarrow> Inr x
            | _ \<Rightarrow> Inr sorted_data)))"

definition main_sorted_data ::
  "(string \<Rightarrow> error + json) \<Rightarrow> json \<Rightarrow> string list \<Rightarrow> bool list option \<Rightarrow> string
    \<Rightarrow> error + json" where
  "main_sorted_data loads data keys reverse missing_key =
    (case (case data of
            JList xs \<Rightarrow>
              if \<exists>key \<in> set keys. CHR ''.'' \<in> set key then
                (case prepare_data_with_nested_keys xs keys of
                  Inl e \<Rightarrow> Inl e
                | Inr prepared_data \<Rightarrow> Inr (JList prepared_data))
              else Inr data
          | _ \<Rightarrow> Inr data) of
      Inl e \<Rightarrow> Inl e
    | Inr data_to_sort \<Rightarrow>
        (case parse_reverse keys reverse of
          Inl e \<Rightarrow> Inl e
        | Inr reverse_arg \<Rightarrow>
            (case sort_and_restore loads data data_to_sort keys reverse_arg missing_key of
              Inl e \<Rightarrow> Inl SystemExit
            | Inr sorted_data \<Rightarrow> Inr sorted_data)))"

section \<open>The store: which objects the sorter writes\<close>

text \<open>
  To see what the functions write, the collection is laid out in a store. A dict
  object (a record of the collection) and a list object (a list of references to
  records) have an address, the position in \<open>dicts\<close> or \<open>lists\<close>; a new object
  gets the next address. The values inside a record are not written by any
  statement of the sorter and stay plain values.
\<close>

record store =
  dicts :: "(string \<times> json) list list"
  lists :: "nat list list"

datatype ref = ListRef nat | DictRef nat

text \<open>
  The statements that allocate or write: a list display or \<^verbatim>\<open>sorted\<close> (a new list),
  \<^verbatim>\<open>item.copy()\<close> and a dict display (a new dict), \<^verbatim>\<open>prepared_data.append(flat_item)\<close>
  and \<^verbatim>\<open>flat_item[key_path] = value\<close>.
\<close>

definition new_list :: "store \<Rightarrow> nat list \<Rightarrow> store \<times> nat" where
  "new_list s refs = (s\<lparr>lists := lists s @ [refs]\<rparr>, length (lists s))"

definition new_dict :: "store \<Rightarrow> (string \<times> json) list \<Rightarrow> store \<times> nat" where
  "new_dict s d = (s\<lparr>dicts := dicts s @ [d]\<rparr>, length (dicts s))"

definition list_append :: "store \<Rightarrow> nat \<Rightarrow> nat \<Rightarrow> store" where
  "list_append s l a = s\<lparr>lists := (lists s)[l := lists s ! l @ [a]]\<rparr>"

definition dict_setitem :: "store \<Rightarrow> nat \<Rightarrow> string \<Rightarrow> json \<Rightarrow> store" where
  "dict_setitem s a k v = s\<lparr>dicts := (dicts s)[a := AList.update k v (dicts s ! a)]\<rparr>"

text \<open>The record at an address, read as a value.\<close>

definition item_at :: "store \<Rightarrow> nat \<Rightarrow> json" where
  "item_at s a = JDict (dicts s ! a)"

text \<open>
  \<^verbatim>\<open>prepare_data_with_nested_keys\<close> in the store: the inner loop over the sort keys
  writes to the copy \<^verbatim>\<open>flat_item\<close> and reads the original \<^verbatim>\<open>item\<close>; the outer loop
  copies each item, flattens the copy and appends it to \<^verbatim>\<open>prepared_data\<close>.
\<close>

fun flatten_keys_st :: "store \<Rightarrow> nat \<Rightarrow> nat \<Rightarrow> string list \<Rightarrow> store" where
  "flatten_keys_st s item flat_item [] = s"
| "flatten_keys_st s item flat_item (key_path # sort_keys) =
    (if CHR ''.'' \<in> set key_path then
       flatten_keys_st
         (dict_setitem s flat_item key_path
           (case get_nested_value (item_at s item) key_path of Inr v \<Rightarrow> v | Inl e \<Rightarrow> JNull))
         item flat_item sort_keys
     else flatten_keys_st s item flat_item sort_keys)"

fun prepare_loop_st :: "store \<Rightarrow> nat \<Rightarrow> nat list \<Rightarrow> string list \<Rightarrow> store" where
  "prepare_loop_st s prepared_data [] sort_keys = s"
| "prepare_loop_st s prepared_data (item # items) sort_keys =
    (case new_dict s (dicts s ! item) of
      (s1, flat_item) \<Rightarrow>
        prepare_loop_st
          (list_append (flatten_keys_st s1 item flat_item sort_keys) prepared_data flat_item)
          prepared_data items sort_keys)"

definition prepare_data_with_nested_keys_st :: "store \<Rightarrow> nat \<Rightarrow> string list \<Rightarrow> store \<times> nat" where
  "prepare_data_with_nested_keys_st s data sort_keys =
    (case new_list s [] of
      (s0, prepared_data) \<Rightarrow>
        (prepare_loop_st s0 prepared_data (lists s ! data) sort_keys, prepared_data))"

text \<open>
  \<^verbatim>\<open>sort_json_data\<close> in the store, for a collection given by reference. \<open>sorted_st\<close>
  is the part from the normalisation of \<^verbatim>\<open>reverse\<close> on: \<^verbatim>\<open>sorted\<close> returns a new list
  of the same references. A dict with a single list entry is rebuilt as a new dict
  around the sorted list; any other dict is first put into a new one-element list.
\<close>

definition sorted_st ::
  "store \<Rightarrow> nat \<Rightarrow> string list \<Rightarrow> reverse_arg \<Rightarrow> string \<Rightarrow> error + store \<times> ref" where
  "sorted_st s data sort_keys reverse missing_key_strategy =
    (case normalize_reverse sort_keys reverse of
      Inl e \<Rightarrow> Inl e
    | Inr reverse_list \<Rightarrow>
        (case py_sorted (\<lambda>a. sort_key_of missing_key_strategy sort_keys reverse_list (item_at s a))
                (lists s ! data) of
          Inl e \<Rightarrow> Inl e
        | Inr sorted_data \<Rightarrow>
            (case new_list s sorted_data of (s', l) \<Rightarrow> Inr (s', ListRef l))))"

definition sort_json_data_st ::
  "(string \<Rightarrow> error + json) \<Rightarrow> store \<Rightarrow> ref \<Rightarrow> string list \<Rightarrow> reverse_arg \<Rightarrow> string
    \<Rightarrow> error + store \<times> ref" where
  "sort_json_data_st loads s data sort_keys reverse missing_key_strategy =
    (case data of
      ListRef l \<Rightarrow> sorted_st s l sort_keys reverse missing_key_strategy
    | DictRef a \<Rightarrow>
        (case single_list_entry (item_at s a) of
          Some (key, v) \<Rightarrow>
            (case sort_json_data loads (JList v) sort_keys reverse missing_key_strategy of
              Inl e \<Rightarrow> Inl e
            | Inr sorted_list \<Rightarrow>
                (case new_dict s [(key, sorted_list)] of (s', b) \<Rightarrow> Inr (s', DictRef b)))
        | None \<Rightarrow>
            (case new_list s [a] of
              (s1, l) \<Rightarrow> sorted_st s1 l sort_keys reverse missing_key_strategy)))"

text \<open>
  Every object of the first store is in the second, at its address, as it was; and
  a reference that is new to a store.
\<close>

definition unchanged :: "store \<Rightarrow> store \<Rightarrow> bool" where
  "unchanged s s' =
    (take (length (dicts s)) (dicts s') = dicts s \<and> take (length (lists s)) (lists s') = lists s)"

fun fresh :: "store \<Rightarrow> ref \<Rightarrow> bool" where
  "fresh s (ListRef l) = (length (lists s) \<le> l)"
| "fresh s (DictRef a) = (length (dicts s) \<le> a)"

text \<open>The flattened copy of the record at an address.\<close>

definition flat_of :: "store \<Rightarrow> string list \<Rightarrow> nat \<Rightarrow> (string \<times> json) list" where
  "flat_of s sort_keys a = fold (flatten_key (item_at s a)) sort_keys (dicts s ! a)"

text \<open>An example store, after the flattening and after the sort.\<close>

definition example_store :: store where
  "example_store =
    \<lparr>dicts = [[(''user'', JDict [(''age'', JInt 30)])], [(''name'', JStr ''x'')]],
     lists = [[0, 1]]\<rparr>"

definition example_flattened :: store where
  "example_flattened =
    \<lparr>dicts = [[(''user'', JDict [(''age'', JInt 30)])], [(''name'', JStr ''x'')],
              [(''user'', JDict [(''age'', JInt 30)]), (''user.age'', JInt 30)],
              [(''name'', JStr ''x''), (''user.age'', JNull)]],
     lists = [[0, 1], [2, 3]]\<rparr>"

definition example_sorted :: store where
  "example_sorted =
    \<lparr>dicts = [[(''user'', JDict [(''age'', JInt 30)])], [(''name'', JStr ''x'')],
              [(''user'', JDict [(''age'', JInt 30)]), (''user.age'', JInt 30)],
              [(''name'', JStr ''x''), (''user.age'', JNull)]],
     lists = [[0, 1], [2, 3], [3, 2]]\<rparr>"

section \<open>Notions used to state the properties\<close>

text \<open>
  A \<^verbatim>\<open>json.loads\<close> that rejects every text (\<^verbatim>\<open>JSONDecodeError\<close> is a
  \<^verbatim>\<open>ValueError\<close>), for the examples, none of which sorts a string.
\<close>

definition loads_invalid :: "string \<Rightarrow> error + json" where
  "loads_invalid s = Inl ValueError"

text \<open>Two sort-key tuples are equal when they are equal under \<^verbatim>\<open>==\<close> at every position.\<close>

definition eq_list :: "json list \<Rightarrow> json list \<Rightarrow> bool" where
  "eq_list = list_all2 py_eq"

text \<open>An element whose sort key is computed without error and equals the tuple \<open>k\<close>.\<close>

definition has_key :: "('a \<Rightarrow> error + json list) \<Rightarrow> json list \<Rightarrow> 'a \<Rightarrow> bool" where
  "has_key keyf k x = (case keyf x of Inr k' \<Rightarrow> eq_list k' k | Inl e \<Rightarrow> False)"

text \<open>
  The records of a collection: the elements of a list, the elements of the list
  under the single key of a wrapping dict, or the one record that a plain dict is.
\<close>

definition records_of :: "json \<Rightarrow> json list" where
  "records_of data =
    (case data of
      JList xs \<Rightarrow> xs
    | JDict d \<Rightarrow> (case single_list_entry data of Some (key, v) \<Rightarrow> v | None \<Rightarrow> [data])
    | _ \<Rightarrow> [])"

text \<open>On pairs of a key and an element: the key starts with a value that is no number.\<close>

definition head_is_text :: "json list \<times> 'a \<Rightarrow> bool" where
  "head_is_text p = (case fst p of [] \<Rightarrow> True | a # as \<Rightarrow> num_of a = None)"

text \<open>On pairs of a key and an element: the first key is not smaller than the second.\<close>

definition not_less :: "json list \<times> 'a \<Rightarrow> json list \<times> 'a \<Rightarrow> bool" where
  "not_less p q = (lt_list (fst p) (fst q) = Inr False)"


text \<open>
  A value that is not NaN and, when it is a list, holds no NaN at any depth. A dict
  is never ordered by \<^verbatim>\<open><\<close>, so what it holds is left open.
\<close>

fun nan_free :: "json \<Rightarrow> bool" where
  "nan_free (JFloat f) = (f \<noteq> NaN)"
| "nan_free (JList xs) = list_all nan_free xs"
| "nan_free JNull = True"
| "nan_free (JBool b) = True"
| "nan_free (JInt i) = True"
| "nan_free (JStr s) = True"
| "nan_free (JDict d) = True"

text \<open>An element whose sort key, when it is computed without error, is free of NaN.\<close>

definition key_nan_free :: "('a \<Rightarrow> error + json list) \<Rightarrow> 'a \<Rightarrow> bool" where
  "key_nan_free keyf x = (case keyf x of Inr k \<Rightarrow> list_all nan_free k | Inl e \<Rightarrow> True)"
section \<open>Equality and order of Python values\<close>

lemma float_lt_asym: "float_lt x y \<Longrightarrow> \<not> float_lt y x"
  by (cases x; cases y) auto

lemma py_eq_sym: "py_eq a b \<Longrightarrow> py_eq b a"
proof (induction a b rule: py_eq.induct)
  case (3 xs b)
  then obtain ys where b: "b = JList ys" and r: "list_all2 py_eq xs ys"
    by (auto split: json.splits)
  have "list_all2 (\<lambda>x y. py_eq y x) xs ys"
    using r "3.IH"[OF b] by (rule list.rel_mono_strong)
  then have "list_all2 py_eq ys xs"
    by (simp add: list_all2_conv_all_nth)
  then show ?case by (simp add: b)
next
  case (4 d b)
  then show ?case by (auto split: json.splits)
next
  case (5 p b)
  then show ?case by (cases b) auto
next
  case (6 i b)
  then show ?case by (cases b) auto
next
  case (7 f b)
  then show ?case by (cases b) auto
qed auto

lemma py_eq_trans: "py_eq a b \<Longrightarrow> py_eq b c \<Longrightarrow> py_eq a c"
proof (induction a arbitrary: b c rule: measure_induct_rule[where f=size])
  case (less a)
  show ?case
  proof (cases a)
    case JNull
    with less.prems show ?thesis by auto
  next
    case (JBool p)
    with less.prems show ?thesis by (cases b; cases c) auto
  next
    case (JInt i)
    with less.prems show ?thesis by (cases b; cases c) auto
  next
    case (JFloat f)
    with less.prems show ?thesis by (cases b; cases c) auto
  next
    case (JStr s)
    with less.prems show ?thesis by auto
  next
    case (JList xs)
    with less.prems obtain ys zs where b: "b = JList ys" and c: "c = JList zs"
      and r1: "list_all2 py_eq xs ys" and r2: "list_all2 py_eq ys zs"
      by (auto split: json.splits)
    have "list_all2 py_eq xs zs"
    proof (rule list_all2_all_nthI)
      show "length xs = length zs"
        using r1 r2 by (simp add: list_all2_lengthD)
    next
      fix n assume n: "n < length xs"
      then have "xs ! n \<in> set xs" by simp
      then have "size (xs ! n) < size a"
        using size_mem_list[of "xs ! n" xs] JList by simp
      moreover have "py_eq (xs ! n) (ys ! n)" using r1 n by (simp add: list_all2_nthD)
      moreover have "py_eq (ys ! n) (zs ! n)" using r1 r2 n by (simp add: list_all2_nthD2 list_all2_lengthD)
      ultimately show "py_eq (xs ! n) (zs ! n)" by (rule less.IH)
    qed
    then show ?thesis by (simp add: JList c)
  next
    case (JDict d)
    with less.prems obtain e g where b: "b = JDict e" and c: "c = JDict g"
      by (auto split: json.splits)
    have de: "\<And>k v. (k, v) \<in> set d \<Longrightarrow> \<exists>w. map_of e k = Some w \<and> py_eq v w"
     and ed: "\<And>k w. (k, w) \<in> set e \<Longrightarrow> \<exists>v. map_of d k = Some v \<and> py_eq w v"
      using less.prems(1) by (auto simp: JDict b list_all_iff split: option.splits)
    have eg: "\<And>k v. (k, v) \<in> set e \<Longrightarrow> \<exists>w. map_of g k = Some w \<and> py_eq v w"
     and ge: "\<And>k w. (k, w) \<in> set g \<Longrightarrow> \<exists>v. map_of e k = Some v \<and> py_eq w v"
      using less.prems(2) by (auto simp: c b list_all_iff split: option.splits)
    have dg: "\<exists>u. map_of g k = Some u \<and> py_eq v u" if "(k, v) \<in> set d" for k v
    proof -
      from de[OF that] obtain w where w: "map_of e k = Some w" "py_eq v w" by blast
      from eg[OF map_of_SomeD[OF w(1)]] obtain u where u: "map_of g k = Some u" "py_eq w u" by blast
      have "size v < size a" using size_mem_dict[OF that] JDict by simp
      then have "py_eq v u" using w(2) u(2) by (rule less.IH)
      with u(1) show ?thesis by blast
    qed
    have gd: "\<exists>v. map_of d k = Some v \<and> py_eq u v" if "(k, u) \<in> set g" for k u
    proof -
      from ge[OF that] obtain w where w: "map_of e k = Some w" "py_eq u w" by blast
      from ed[OF map_of_SomeD[OF w(1)]] obtain v where v: "map_of d k = Some v" "py_eq w v" by blast
      have "size v < size a" using size_map_of[OF v(1)] JDict by simp
      moreover have "py_eq v w" using v(2) by (rule py_eq_sym)
      moreover have "py_eq w u" using w(2) by (rule py_eq_sym)
      ultimately have "py_eq v u" by (rule less.IH)
      then have "py_eq u v" by (rule py_eq_sym)
      with v(1) show ?thesis by blast
    qed
    show ?thesis
      unfolding JDict c py_eq.simps json.case list_all_iff
      using dg gd by (fastforce split: option.splits)
  qed
qed

lemma py_eq_num: "py_eq a b \<Longrightarrow> (num_of a = None) = (num_of b = None)"
  by (cases a; cases b) (auto split: json.splits)

lemma py_lt_num: "py_lt a b = Inr r \<Longrightarrow> (num_of a = None) = (num_of b = None)"
  by (cases a; cases b) (auto split: option.splits)

lemma lt_list_head_num:
  "lt_list (a # as) (b # bs) = Inr r \<Longrightarrow> (num_of a = None) = (num_of b = None)"
  by (auto dest: py_eq_num py_lt_num split: if_splits)

lemma py_lt_asym: "py_lt a b = Inr True \<Longrightarrow> py_lt b a = Inr False"
  and lt_list_asym: "lt_list xs ys = Inr True \<Longrightarrow> lt_list ys xs = Inr False"
proof (induction a b and xs ys rule: py_lt_lt_list.induct)
  case (7 x xs y ys)
  show ?case
  proof (cases "py_eq x y")
    case True
    then have "py_eq y x" by (rule py_eq_sym)
    with True 7 show ?thesis by simp
  next
    case False
    then have "\<not> py_eq y x" using py_eq_sym by blast
    with False 7 show ?thesis by simp
  qed
qed (auto split: option.splits dest: float_lt_asym)

lemma lt_list_not_eq: "lt_list xs ys = Inr True \<Longrightarrow> \<not> eq_list xs ys"
  unfolding eq_list_def
  by (induction xs ys rule: list_induct2') (auto split: if_splits)

lemma eq_list_sym: "eq_list xs ys \<Longrightarrow> eq_list ys xs"
  unfolding eq_list_def
  by (induction xs ys rule: list_induct2') (auto dest: py_eq_sym)

lemma eq_list_trans: "eq_list xs ys \<Longrightarrow> eq_list ys zs \<Longrightarrow> eq_list xs zs"
  unfolding eq_list_def
  by (induction xs ys arbitrary: zs rule: list_induct2') (auto simp: list_all2_Cons1 dest: py_eq_trans)

section \<open>The sort: what holds for all keys\<close>

lemma collect_length: "collect f xs = Inr ks \<Longrightarrow> length ks = length xs"
  by (induction xs arbitrary: ks) (auto split: sum.splits)


lemma collect_zip:
  "collect f xs = Inr ks \<Longrightarrow> p \<in> set (zip ks xs) \<Longrightarrow> f (snd p) = Inr (fst p)"
  by (induction xs arbitrary: ks) (auto split: sum.splits)

lemma binary_insert_Nil: "binary_insert x [] = Inr [x]"
  by (simp add: binary_insert.simps)

lemma middle_less: "w \<noteq> [] \<Longrightarrow> length w div 2 < length w"
  by (cases w) auto

lemma binary_insert_cases:
  assumes "binary_insert x w = Inr w'"
  obtains (empty) "w = []" "w' = [x]"
  | (left) l where "w \<noteq> []" "lt_list (fst x) (fst (w ! (length w div 2))) = Inr True"
      "binary_insert x (take (length w div 2) w) = Inr l" "w' = l @ drop (length w div 2) w"
  | (right) r where "w \<noteq> []" "lt_list (fst x) (fst (w ! (length w div 2))) = Inr False"
      "binary_insert x (drop (Suc (length w div 2)) w) = Inr r"
      "w' = take (Suc (length w div 2)) w @ r"
proof (cases "w = []")
  case True
  with assms have "w' = [x]" by (simp add: binary_insert_Nil)
  with True show ?thesis by (rule empty)
next
  case False
  from assms have u: "(case lt_list (fst x) (fst (w ! (length w div 2))) of
        Inl e \<Rightarrow> Inl e
      | Inr True \<Rightarrow>
          (case binary_insert x (take (length w div 2) w) of
            Inl e \<Rightarrow> Inl e
          | Inr l \<Rightarrow> Inr (l @ drop (length w div 2) w))
      | Inr False \<Rightarrow>
          (case binary_insert x (drop (Suc (length w div 2)) w) of
            Inl e \<Rightarrow> Inl e
          | Inr r \<Rightarrow> Inr (take (Suc (length w div 2)) w @ r))) = Inr w'"
    using False by (subst (asm) binary_insert.simps) simp
  show ?thesis
  proof (cases "lt_list (fst x) (fst (w ! (length w div 2)))")
    case (Inl e)
    with u show ?thesis by simp
  next
    case (Inr b)
    show ?thesis
    proof (cases b)
      case True
      with u Inr obtain l where "binary_insert x (take (length w div 2) w) = Inr l"
        and "w' = l @ drop (length w div 2) w"
        by (auto split: sum.splits)
      with False Inr True show ?thesis by (intro left) auto
    next
      case b: False
      with u Inr obtain r where "binary_insert x (drop (Suc (length w div 2)) w) = Inr r"
        and "w' = take (Suc (length w div 2)) w @ r"
        by (auto split: sum.splits)
      with False Inr b show ?thesis by (intro right) auto
    qed
  qed
qed

lemma binary_insert_set: "binary_insert x w = Inr w' \<Longrightarrow> set w' = insert x (set w)"
proof (induction w arbitrary: w' rule: length_induct)
  case (1 w)
  from "1.prems" show ?case
  proof (cases rule: binary_insert_cases)
    case empty
    then show ?thesis by simp
  next
    case (left l)
    have "length (take (length w div 2) w) < length w"
      using middle_less[OF left(1)] by simp
    with "1.IH" left(3) have "set l = insert x (set (take (length w div 2) w))" by blast
    moreover have "set (take (length w div 2) w) \<union> set (drop (length w div 2) w) = set w"
      by (metis append_take_drop_id set_append)
    ultimately show ?thesis unfolding left(4) set_append by blast
  next
    case (right r)
    have "length (drop (Suc (length w div 2)) w) < length w"
      using middle_less[OF right(1)] by simp
    with "1.IH" right(3) have "set r = insert x (set (drop (Suc (length w div 2)) w))" by blast
    moreover have "set (take (Suc (length w div 2)) w) \<union> set (drop (Suc (length w div 2)) w) = set w"
      by (metis append_take_drop_id set_append)
    ultimately show ?thesis unfolding right(4) set_append by blast
  qed
qed

lemma binary_insert_ends:
  "binary_insert x w = Inr w' \<Longrightarrow>
   w' \<noteq> [] \<and> (hd w' = x \<or> (w \<noteq> [] \<and> hd w' = hd w)) \<and> (last w' = x \<or> (w \<noteq> [] \<and> last w' = last w))"
proof (induction w arbitrary: w' rule: length_induct)
  case (1 w)
  from "1.prems" show ?case
  proof (cases rule: binary_insert_cases)
    case empty
    then show ?thesis by simp
  next
    case (left l)
    let ?m = "length w div 2"
    have m: "?m < length w" using middle_less[OF left(1)] .
    then have "length (take ?m w) < length w" by simp
    with "1.IH" left(3) have l: "l \<noteq> []"
      "hd l = x \<or> (take ?m w \<noteq> [] \<and> hd l = hd (take ?m w))" by blast+
    have d: "drop ?m w \<noteq> []" using m by simp
    have ne: "w' \<noteq> []" using l(1) by (simp add: left(4))
    have "hd w' = hd l" using l(1) by (simp add: left(4))
    moreover have "take ?m w \<noteq> [] \<Longrightarrow> hd (take ?m w) = hd w"
      by (cases w) (auto simp: take_Cons' split: if_splits)
    moreover have "last w' = last w"
      using d by (simp add: left(4) last_drop m)
    ultimately show ?thesis using l left(1) ne by auto
  next
    case (right r)
    let ?m = "length w div 2"
    have m: "?m < length w" using middle_less[OF right(1)] .
    then have "length (drop (Suc ?m) w) < length w" by simp
    with "1.IH" right(3) have r: "r \<noteq> []"
      "last r = x \<or> (drop (Suc ?m) w \<noteq> [] \<and> last r = last (drop (Suc ?m) w))" by blast+
    have ne: "w' \<noteq> []" using r(1) by (simp add: right(4))
    have "take (Suc ?m) w \<noteq> []" using right(1) by simp
    then have "hd w' = hd w" using right(1) by (cases w) (simp_all add: right(4))
    moreover have "last w' = last r" using r(1) by (simp add: right(4))
    moreover have "drop (Suc ?m) w \<noteq> [] \<Longrightarrow> last (drop (Suc ?m) w) = last w"
      by (simp add: last_drop)
    ultimately show ?thesis using r right(1) ne by auto
  qed
qed

lemma binary_insert_chain:
  "successively (\<lambda>p q. not_less q p) w \<Longrightarrow> binary_insert x w = Inr w' \<Longrightarrow>
   successively (\<lambda>p q. not_less q p) w'"
proof (induction w arbitrary: w' rule: length_induct)
  case (1 w)
  let ?R = "\<lambda>p q. not_less q p"
  from "1.prems"(2) show ?case
  proof (cases rule: binary_insert_cases)
    case empty
    then show ?thesis by simp
  next
    case (left l)
    let ?m = "length w div 2"
    have m: "?m < length w" using middle_less[OF left(1)] .
    have "successively ?R (take ?m w @ drop ?m w)" using "1.prems"(1) by simp
    then have s: "successively ?R (take ?m w)" "successively ?R (drop ?m w)"
      and b: "take ?m w \<noteq> [] \<Longrightarrow> ?R (last (take ?m w)) (hd (drop ?m w))"
      using m unfolding successively_append_iff by auto
    have "length (take ?m w) < length w" using m by simp
    with "1.IH" s(1) left(3) have sl: "successively ?R l" by blast
    have hd: "hd (drop ?m w) = w ! ?m" using m by (simp add: hd_drop_conv_nth)
    from binary_insert_ends[OF left(3)]
    have l: "l \<noteq> []" "last l = x \<or> (take ?m w \<noteq> [] \<and> last l = last (take ?m w))" by blast+
    have "?R (last l) (hd (drop ?m w))"
      using l(2)
    proof
      assume "last l = x"
      then show ?thesis using left(2) by (simp add: hd not_less_def lt_list_asym)
    next
      assume "take ?m w \<noteq> [] \<and> last l = last (take ?m w)"
      then show ?thesis using b by simp
    qed
    with sl s(2) show ?thesis unfolding left(4) successively_append_iff by simp
  next
    case (right r)
    let ?m = "length w div 2"
    have m: "?m < length w" using middle_less[OF right(1)] .
    have "successively ?R (take (Suc ?m) w @ drop (Suc ?m) w)" using "1.prems"(1) by simp
    then have s: "successively ?R (take (Suc ?m) w)" "successively ?R (drop (Suc ?m) w)"
      and b: "drop (Suc ?m) w \<noteq> [] \<Longrightarrow> ?R (last (take (Suc ?m) w)) (hd (drop (Suc ?m) w))"
      using right(1) unfolding successively_append_iff by auto
    have "length (drop (Suc ?m) w) < length w" using m by simp
    with "1.IH" s(2) right(3) have sr: "successively ?R r" by blast
    have la: "last (take (Suc ?m) w) = w ! ?m"
      using m by (simp add: take_Suc_conv_app_nth)
    from binary_insert_ends[OF right(3)]
    have r: "r \<noteq> []" "hd r = x \<or> (drop (Suc ?m) w \<noteq> [] \<and> hd r = hd (drop (Suc ?m) w))" by blast+
    have "?R (last (take (Suc ?m) w)) (hd r)"
      using r(2)
    proof
      assume "hd r = x"
      then show ?thesis using right(2) by (simp add: la not_less_def)
    next
      assume "drop (Suc ?m) w \<noteq> [] \<and> hd r = hd (drop (Suc ?m) w)"
      then show ?thesis using b by simp
    qed
    with sr s(1) show ?thesis unfolding right(4) successively_append_iff by simp
  qed
qed


lemma binarysort_set: "binarysort run xs = Inr out \<Longrightarrow> set out = set run \<union> set xs"
proof (induction xs arbitrary: run)
  case Nil
  then show ?case by simp
next
  case (Cons x xs)
  from Cons.prems obtain run' where r: "binary_insert x run = Inr run'"
    and s: "binarysort run' xs = Inr out"
    by (auto split: sum.splits)
  from Cons.IH[OF s] binary_insert_set[OF r] show ?case by auto
qed

lemma run_ascending_chain:
  "run_ascending prev xs = Inr n \<Longrightarrow>
   n \<le> length xs \<and> successively (\<lambda>p q. not_less q p) (prev # take n xs)"
proof (induction xs arbitrary: prev n)
  case Nil
  then show ?case by simp
next
  case (Cons x xs)
  show ?case
  proof (cases "lt_list (fst x) (fst prev)")
    case (Inl e)
    with Cons.prems show ?thesis by simp
  next
    case (Inr b)
    show ?thesis
    proof (cases b)
      case True
      with Inr Cons.prems show ?thesis by simp
    next
      case False
      with Inr Cons.prems obtain k where k: "run_ascending x xs = Inr k" and n: "n = Suc k"
        by (auto split: sum.splits)
      from Cons.IH[OF k] Inr False show ?thesis by (simp add: n not_less_def)
    qed
  qed
qed

lemma run_descending_chain:
  "run_descending prev xs = Inr n \<Longrightarrow>
   n \<le> length xs \<and> successively (\<lambda>p q. lt_list (fst q) (fst p) = Inr True) (prev # take n xs)"
proof (induction xs arbitrary: prev n)
  case Nil
  then show ?case by simp
next
  case (Cons x xs)
  show ?case
  proof (cases "lt_list (fst x) (fst prev)")
    case (Inl e)
    with Cons.prems show ?thesis by simp
  next
    case (Inr b)
    show ?thesis
    proof (cases b)
      case False
      with Inr Cons.prems show ?thesis by simp
    next
      case True
      with Inr Cons.prems obtain k where k: "run_descending x xs = Inr k" and n: "n = Suc k"
        by (auto split: sum.splits)
      from Cons.IH[OF k] Inr True show ?thesis by (simp add: n)
    qed
  qed
qed

lemma count_run_length: "count_run ps = Inr (n, d) \<Longrightarrow> n \<le> length ps"
proof (cases ps rule: count_run.cases)
  case 1
  then show "count_run ps = Inr (n, d) \<Longrightarrow> n \<le> length ps" by simp
next
  case (2 x)
  then show "count_run ps = Inr (n, d) \<Longrightarrow> n \<le> length ps" by auto
next
  case (3 x y ys)
  assume c: "count_run ps = Inr (n, d)"
  show "n \<le> length ps"
  proof (cases "lt_list (fst y) (fst x)")
    case (Inl e)
    with c 3 show ?thesis by simp
  next
    case (Inr b)
    show ?thesis
    proof (cases b)
      case True
      with c 3 Inr obtain k where "run_descending y ys = Inr k" "n = k + 2"
        by (auto split: sum.splits)
      with run_descending_chain[of y ys k] 3 show ?thesis by simp
    next
      case False
      with c 3 Inr obtain k where "run_ascending y ys = Inr k" "n = k + 2"
        by (auto split: sum.splits)
      with run_ascending_chain[of y ys k] 3 show ?thesis by simp
    qed
  qed
qed

lemma count_run_chain:
  assumes "count_run ps = Inr (n, d)"
  shows "successively (\<lambda>p q. not_less q p) (if d then rev (take n ps) else take n ps)"
proof (cases ps rule: count_run.cases)
  case 1
  with assms show ?thesis by auto
next
  case (2 x)
  with assms show ?thesis by auto
next
  case (3 x y ys)
  show ?thesis
  proof (cases "lt_list (fst y) (fst x)")
    case (Inl e)
    with assms 3 show ?thesis by simp
  next
    case (Inr b)
    show ?thesis
    proof (cases b)
      case True
      with assms 3 Inr obtain k where k: "run_descending y ys = Inr k" and n: "n = k + 2" and d: "d"
        by (auto split: sum.splits)
      from run_descending_chain[OF k] Inr True
      have "successively (\<lambda>p q. lt_list (fst q) (fst p) = Inr True) (x # y # take k ys)"
        by simp
      then have "successively (\<lambda>p q. not_less p q) (x # y # take k ys)"
        by (rule successively_mono) (simp_all add: not_less_def lt_list_asym)
      then have "successively (\<lambda>p q. not_less q p) (rev (x # y # take k ys))"
        unfolding successively_rev .
      then show ?thesis using d n 3 by simp
    next
      case False
      with assms 3 Inr obtain k where k: "run_ascending y ys = Inr k" and n: "n = k + 2" and d: "\<not> d"
        by (auto split: sum.splits)
      from run_ascending_chain[OF k] Inr False
      have "successively (\<lambda>p q. not_less q p) (x # y # take k ys)"
        by (simp add: not_less_def)
      then show ?thesis using d n 3 by simp
    qed
  qed
qed


lemma listsort_set: "listsort ps = Inr out \<Longrightarrow> set out = set ps"
proof -
  assume a: "listsort ps = Inr out"
  then obtain n d where c: "count_run ps = Inr (n, d)"
    and b: "binarysort (if d then rev (take n ps) else take n ps) (drop n ps) = Inr out"
    by (auto simp: listsort_def split: sum.splits)
  have "set (take n ps) \<union> set (drop n ps) = set ps"
    by (metis append_take_drop_id set_append)
  with binarysort_set[OF b] show ?thesis by (auto split: if_splits)
qed




lemma py_lt_error: "py_lt a b = Inl e \<Longrightarrow> e = TypeError"
  and lt_list_error: "lt_list xs ys = Inl e \<Longrightarrow> e = TypeError"
  by (induction a b and xs ys rule: py_lt_lt_list.induct)
     (auto split: option.splits if_splits)

lemma run_ascending_error: "run_ascending prev xs = Inl e \<Longrightarrow> e = TypeError"
  by (induction xs arbitrary: prev) (auto split: sum.splits bool.splits dest: lt_list_error)

lemma run_descending_error: "run_descending prev xs = Inl e \<Longrightarrow> e = TypeError"
  by (induction xs arbitrary: prev) (auto split: sum.splits bool.splits dest: lt_list_error)

lemma count_run_error: "count_run ps = Inl e \<Longrightarrow> e = TypeError"
  by (cases ps rule: count_run.cases)
     (auto split: sum.splits bool.splits
       dest: lt_list_error run_ascending_error run_descending_error)

lemma binary_insert_error: "binary_insert x w = Inl e \<Longrightarrow> e = TypeError"
proof (induction w rule: length_induct)
  case (1 w)
  show ?case
  proof (cases "w = []")
    case True
    with "1.prems" show ?thesis by (simp add: binary_insert_Nil)
  next
    case False
    let ?m = "length w div 2"
    have m: "?m < length w" using middle_less[OF False] .
    have "length (take ?m w) < length w" using m by simp
    with "1.IH" have l: "binary_insert x (take ?m w) = Inl e \<Longrightarrow> e = TypeError"
      by blast
    have "length (drop (Suc ?m) w) < length w" using m by simp
    with "1.IH" have r: "binary_insert x (drop (Suc ?m) w) = Inl e \<Longrightarrow> e = TypeError"
      by blast
    show ?thesis
    proof (cases "lt_list (fst x) (fst (w ! ?m))")
      case (Inl e')
      with "1.prems" False have "e = e'" by (subst (asm) binary_insert.simps) simp
      with Inl show ?thesis by (simp add: lt_list_error)
    next
      case (Inr b)
      show ?thesis
      proof (cases b)
        case True
        with "1.prems" False Inr have "binary_insert x (take ?m w) = Inl e"
          by (subst (asm) binary_insert.simps) (simp split: sum.splits)
        then show ?thesis by (rule l)
      next
        case b: False
        with "1.prems" False Inr have "binary_insert x (drop (Suc ?m) w) = Inl e"
          by (subst (asm) binary_insert.simps) (simp split: sum.splits)
        then show ?thesis by (rule r)
      qed
    qed
  qed
qed

lemma binarysort_error: "binarysort run xs = Inl e \<Longrightarrow> e = TypeError"
  by (induction xs arbitrary: run) (auto split: sum.splits dest: binary_insert_error)

lemma listsort_error: "listsort ps = Inl e \<Longrightarrow> e = TypeError"
  by (auto simp: listsort_def split: sum.splits prod.splits
      dest: count_run_error binarysort_error)

lemma successively_same:
  "successively (\<lambda>p q. f p = f q) (x # xs) \<Longrightarrow> q \<in> set xs \<Longrightarrow> f q = f x"
  by (induction xs arbitrary: x) auto

lemma not_less_same_kind:
  "not_less p q \<Longrightarrow> fst p \<noteq> [] \<Longrightarrow> fst q \<noteq> [] \<Longrightarrow> head_is_text p = head_is_text q"
proof -
  assume a: "not_less p q" and p: "fst p \<noteq> []" and q: "fst q \<noteq> []"
  from p obtain a as where pa: "fst p = a # as" by (cases "fst p") auto
  from q obtain b bs where qb: "fst q = b # bs" by (cases "fst q") auto
  from a have "lt_list (a # as) (b # bs) = Inr False" by (simp add: not_less_def pa qb)
  then have "(num_of a = None) = (num_of b = None)" by (rule lt_list_head_num)
  then show ?thesis by (simp add: head_is_text_def pa qb)
qed

lemma chain_same_kind:
  assumes "successively (\<lambda>p q. not_less q p) (x # xs)" and "\<forall>q \<in> set (x # xs). fst q \<noteq> []"
    and "q \<in> set xs"
  shows "head_is_text q = head_is_text x"
proof -
  have "successively (\<lambda>p q. head_is_text p = head_is_text q) (x # xs)"
    using assms(1)
  proof (rule successively_mono)
    fix p q assume "p \<in> set (x # xs)" "q \<in> set (x # xs)" "not_less q p"
    with assms(2) show "head_is_text p = head_is_text q"
      using not_less_same_kind[of q p] by auto
  qed
  then show ?thesis using assms(3) by (rule successively_same)
qed

lemma binary_insert_same_kind:
  assumes "binary_insert x w = Inr w'" and "w \<noteq> []" and "fst x \<noteq> []"
    and "\<forall>q \<in> set w. fst q \<noteq> [] \<and> head_is_text q = n"
  shows "head_is_text x = n"
proof -
  let ?y = "w ! (length w div 2)"
  have y: "?y \<in> set w" using middle_less[OF assms(2)] by simp
  from assms(3) obtain a as where x: "fst x = a # as" by (cases "fst x") auto
  from assms(4) y obtain b bs where yb: "fst ?y = b # bs" and n: "head_is_text ?y = n"
    by (cases "fst ?y") auto
  from assms(1) obtain r where "lt_list (fst x) (fst ?y) = Inr r"
    using assms(2) by (cases rule: binary_insert_cases) auto
  then have "lt_list (a # as) (b # bs) = Inr r" by (simp add: x yb)
  then have "(num_of a = None) = (num_of b = None)" by (rule lt_list_head_num)
  then show ?thesis using n by (simp add: head_is_text_def x yb)
qed

lemma binarysort_same_kind:
  assumes "binarysort run xs = Inr out"
    and "\<forall>q \<in> set run. fst q \<noteq> [] \<and> head_is_text q = n"
    and "\<forall>q \<in> set xs. fst q \<noteq> []"
    and "run \<noteq> []"
  shows "\<forall>q \<in> set xs. head_is_text q = n"
  using assms
proof (induction xs arbitrary: run)
  case Nil
  then show ?case by simp
next
  case (Cons x xs)
  from Cons.prems(1) obtain run' where a: "binary_insert x run = Inr run'"
    and s: "binarysort run' xs = Inr out"
    by (auto split: sum.splits)
  have x: "head_is_text x = n"
    using a Cons.prems(4) _ Cons.prems(2)
    by (rule binary_insert_same_kind) (use Cons.prems(3) in simp)
  have set': "set run' = insert x (set run)" using a by (rule binary_insert_set)
  have "\<forall>q \<in> set xs. head_is_text q = n"
  proof (rule Cons.IH[OF s])
    show "\<forall>q \<in> set run'. fst q \<noteq> [] \<and> head_is_text q = n"
      using Cons.prems(2,3) x by (simp add: set')
    show "\<forall>q \<in> set xs. fst q \<noteq> []" using Cons.prems(3) by simp
    show "run' \<noteq> []" using set' by auto
  qed
  with x show ?case by simp
qed

lemma count_run_positive: "count_run ps = Inr (n, d) \<Longrightarrow> ps \<noteq> [] \<Longrightarrow> 0 < n"
  by (cases ps rule: count_run.cases) (auto split: sum.splits bool.splits)

lemma listsort_all_same_kind:
  assumes "listsort ps = Inr out" and "\<forall>q \<in> set ps. fst q \<noteq> []"
    and "p \<in> set ps" and "q \<in> set ps"
  shows "head_is_text p = head_is_text q"
proof -
  from assms(1) obtain n d where c: "count_run ps = Inr (n, d)"
    and b: "binarysort (if d then rev (take n ps) else take n ps) (drop n ps) = Inr out"
    by (auto simp: listsort_def split: sum.splits)
  define run where "run = (if d then rev (take n ps) else take n ps)"
  have ps: "ps \<noteq> []" using assms(3) by auto
  have n: "0 < n" using c ps by (rule count_run_positive)
  have sr: "set run = set (take n ps)" by (simp add: run_def)
  have ne: "run \<noteq> []" using n ps by (simp add: run_def)
  then obtain x xs where run: "run = x # xs" by (cases run) auto
  have inps: "\<And>z. z \<in> set run \<Longrightarrow> z \<in> set ps"
    unfolding sr by (rule in_set_takeD)
  have nonempty: "\<forall>z \<in> set (x # xs). fst z \<noteq> []"
  proof
    fix z assume "z \<in> set (x # xs)"
    then have "z \<in> set ps" using inps run by simp
    with assms(2) show "fst z \<noteq> []" by simp
  qed
  have ch: "successively (\<lambda>p q. not_less q p) (x # xs)"
    using count_run_chain[OF c] run by (simp add: run_def)
  have k: "\<forall>z \<in> set run. fst z \<noteq> [] \<and> head_is_text z = head_is_text x"
  proof
    fix z assume z: "z \<in> set run"
    have "head_is_text z = head_is_text x"
    proof (cases "z = x")
      case True
      then show ?thesis by simp
    next
      case False
      with z run have "z \<in> set xs" by simp
      with ch nonempty show ?thesis by (rule chain_same_kind)
    qed
    moreover have "fst z \<noteq> []" using z nonempty run by auto
    ultimately show "fst z \<noteq> [] \<and> head_is_text z = head_is_text x" by simp
  qed
  have dn: "\<forall>z \<in> set (drop n ps). fst z \<noteq> []"
  proof
    fix z assume "z \<in> set (drop n ps)"
    then have "z \<in> set ps" by (rule in_set_dropD)
    with assms(2) show "fst z \<noteq> []" by simp
  qed
  have b': "binarysort run (drop n ps) = Inr out" using b by (simp add: run_def)
  have rest: "\<forall>z \<in> set (drop n ps). head_is_text z = head_is_text x"
    using b' k dn ne by (rule binarysort_same_kind)
  have split: "set ps = set (take n ps) \<union> set (drop n ps)"
    by (metis append_take_drop_id set_append)
  have all: "\<And>z. z \<in> set ps \<Longrightarrow> head_is_text z = head_is_text x"
  proof -
    fix z assume "z \<in> set ps"
    then have "z \<in> set run \<or> z \<in> set (drop n ps)" unfolding split sr by simp
    then show "head_is_text z = head_is_text x" using k rest by blast
  qed
  from all[OF assms(3)] all[OF assms(4)] show ?thesis by simp
qed

section \<open>The order on values that are not NaN\<close>

lemma py_lt_Some1:
  "num_of a = Some x \<Longrightarrow>
   py_lt a c = (case num_of c of Some y \<Rightarrow> Inr (float_lt x y) | None \<Rightarrow> Inl TypeError)"
  by (cases a; cases c) auto

lemma py_lt_Some2:
  "num_of c = Some y \<Longrightarrow>
   py_lt a c = (case num_of a of Some x \<Rightarrow> Inr (float_lt x y) | None \<Rightarrow> Inl TypeError)"
  by (cases a; cases c) auto

lemma py_eq_Some1: "num_of a = Some x \<Longrightarrow> py_eq a b = (num_of b = Some x)"
  by (cases a) (auto split: if_splits)

lemma py_lt_Inr_cases:
  assumes "py_lt a b = Inr r"
  obtains (num) x y where "num_of a = Some x" "num_of b = Some y" "r = float_lt x y"
  | (str) s t where "a = JStr s" "b = JStr t" "r = (s < t)"
  | (list) xs ys where "a = JList xs" "b = JList ys" "lt_list xs ys = Inr r"
  using assms by (cases a; cases b) (auto split: option.splits)

lemma py_eq_kind:
  "py_eq a b \<Longrightarrow>
   (num_of a \<noteq> None \<and> num_of b = num_of a) \<or> (\<exists>s. a = JStr s \<and> b = JStr s) \<or>
   (\<exists>xs ys. a = JList xs \<and> b = JList ys \<and> list_all2 py_eq xs ys) \<or>
   (\<exists>d e. a = JDict d \<and> b = JDict e) \<or> (a = JNull \<and> b = JNull)"
  by (cases a) (auto split: json.splits)

lemma lt_list_cong1_aux:
  assumes "\<And>x y z. x \<in> set xs \<Longrightarrow> py_eq x y \<Longrightarrow> py_lt x z = py_lt y z"
    and "list_all2 py_eq xs ys"
  shows "lt_list xs zs = lt_list ys zs"
  using assms
proof (induction xs arbitrary: ys zs)
  case Nil
  then show ?case by simp
next
  case (Cons x xs)
  from Cons.prems(2) obtain y ys' where ys: "ys = y # ys'" and xy: "py_eq x y"
    and r: "list_all2 py_eq xs ys'"
    by (auto simp: list_all2_Cons1)
  show ?case
  proof (cases zs)
    case Nil
    then show ?thesis by (simp add: ys)
  next
    case (Cons z zs')
    have e: "py_eq x z = py_eq y z"
      using xy py_eq_sym py_eq_trans by blast
    have l: "py_lt x z = py_lt y z" using xy by (intro Cons.prems(1)) simp_all
    have t: "lt_list xs zs' = lt_list ys' zs'"
      using r by (intro Cons.IH Cons.prems(1)) simp_all
    show ?thesis by (simp add: ys Cons e l t)
  qed
qed

lemma py_lt_cong1: "py_eq a b \<Longrightarrow> py_lt a c = py_lt b c"
proof (induction a arbitrary: b c rule: measure_induct_rule[where f=size])
  case (less a)
  from py_eq_kind[OF less.prems] consider
    (num) "num_of a \<noteq> None" "num_of b = num_of a"
    | (str) s where "a = JStr s" "b = JStr s"
    | (list) xs ys where "a = JList xs" "b = JList ys" "list_all2 py_eq xs ys"
    | (dict) d e where "a = JDict d" "b = JDict e"
    | (null) "a = JNull" "b = JNull"
    by blast
  then show ?case
  proof cases
    case num
    then obtain x where "num_of a = Some x" "num_of b = Some x" by auto
    then show ?thesis by (simp add: py_lt_Some1)
  next
    case str
    then show ?thesis by simp
  next
    case (list xs ys)
    have "lt_list xs zs = lt_list ys zs" for zs
    proof (rule lt_list_cong1_aux)
      fix x y z assume "x \<in> set xs" "py_eq x y"
      moreover from this have "size x < size a"
        using size_mem_list[of x xs] list by simp
      ultimately show "py_lt x z = py_lt y z" using less.IH by blast
    qed (rule list(3))
    then show ?thesis using list by (cases c) simp_all
  next
    case dict
    then show ?thesis by (cases c) simp_all
  next
    case null
    then show ?thesis by simp
  qed
qed

lemma lt_list_cong2_aux:
  assumes "\<And>x y z. y \<in> set ys \<Longrightarrow> py_eq y z \<Longrightarrow> py_lt x y = py_lt x z"
    and "list_all2 py_eq ys zs"
  shows "lt_list xs ys = lt_list xs zs"
  using assms
proof (induction ys arbitrary: xs zs)
  case Nil
  then show ?case by simp
next
  case (Cons y ys)
  from Cons.prems(2) obtain z zs' where zs: "zs = z # zs'" and yz: "py_eq y z"
    and r: "list_all2 py_eq ys zs'"
    by (auto simp: list_all2_Cons1)
  show ?case
  proof (cases xs)
    case Nil
    then show ?thesis by (simp add: zs)
  next
    case (Cons x xs')
    have e: "py_eq x y = py_eq x z"
      using yz py_eq_sym py_eq_trans by blast
    have l: "py_lt x y = py_lt x z" using yz by (intro Cons.prems(1)) simp_all
    have t: "lt_list xs' ys = lt_list xs' zs'"
      using r by (intro Cons.IH Cons.prems(1)) simp_all
    show ?thesis by (simp add: zs Cons e l t)
  qed
qed

lemma py_lt_cong2: "py_eq b c \<Longrightarrow> py_lt a b = py_lt a c"
proof (induction b arbitrary: a c rule: measure_induct_rule[where f=size])
  case (less b)
  from py_eq_kind[OF less.prems] consider
    (num) "num_of b \<noteq> None" "num_of c = num_of b"
    | (str) s where "b = JStr s" "c = JStr s"
    | (list) ys zs where "b = JList ys" "c = JList zs" "list_all2 py_eq ys zs"
    | (dict) d e where "b = JDict d" "c = JDict e"
    | (null) "b = JNull" "c = JNull"
    by blast
  then show ?case
  proof cases
    case num
    then obtain y where "num_of b = Some y" "num_of c = Some y" by auto
    then show ?thesis by (simp add: py_lt_Some2)
  next
    case str
    then show ?thesis by simp
  next
    case (list ys zs)
    have "lt_list xs ys = lt_list xs zs" for xs
    proof (rule lt_list_cong2_aux)
      fix x y z assume "y \<in> set ys" "py_eq y z"
      moreover from this have "size y < size b"
        using size_mem_list[of y ys] list by simp
      ultimately show "py_lt x y = py_lt x z" using less.IH by blast
    qed (rule list(3))
    then show ?thesis using list by (cases a) simp_all
  next
    case dict
    then show ?thesis by (cases a) simp_all
  next
    case null
    then show ?thesis by (cases a) simp_all
  qed
qed

lemma lt_list_cong1: "eq_list xs ys \<Longrightarrow> lt_list xs zs = lt_list ys zs"
  unfolding eq_list_def by (rule lt_list_cong1_aux) (rule py_lt_cong1)

lemma lt_list_cong2: "eq_list ys zs \<Longrightarrow> lt_list xs ys = lt_list xs zs"
  unfolding eq_list_def by (rule lt_list_cong2_aux) (rule py_lt_cong2)

lemma nan_free_num: "nan_free a \<Longrightarrow> num_of a \<noteq> Some NaN"
  by (cases a) auto

lemma float_lt_total: "x \<noteq> NaN \<Longrightarrow> y \<noteq> NaN \<Longrightarrow> x \<noteq> y \<Longrightarrow> \<not> float_lt y x \<Longrightarrow> float_lt x y"
  by (cases x; cases y) auto

lemma float_le_trans:
  "y \<noteq> NaN \<Longrightarrow> \<not> float_lt y x \<Longrightarrow> \<not> float_lt z y \<Longrightarrow> \<not> float_lt z x"
  by (cases x; cases y; cases z) auto

lemma lt_list_total_aux:
  assumes "\<And>a b. b \<in> set bs \<Longrightarrow> py_lt b a = Inr False \<Longrightarrow> \<not> py_eq b a \<Longrightarrow>
      nan_free a \<Longrightarrow> nan_free b \<Longrightarrow> py_lt a b = Inr True"
    and "lt_list bs as = Inr False" and "\<not> list_all2 py_eq bs as"
    and "list_all nan_free as" and "list_all nan_free bs"
  shows "lt_list as bs = Inr True"
  using assms
proof (induction bs arbitrary: as)
  case Nil
  then show ?case by (cases as) auto
next
  case (Cons b bs)
  show ?case
  proof (cases as)
    case Nil
    then show ?thesis by simp
  next
    case (Cons a as')
    show ?thesis
    proof (cases "py_eq b a")
      case True
      then have ab: "py_eq a b" by (rule py_eq_sym)
      have "lt_list as' bs = Inr True"
      proof (rule Cons.IH)
        show "lt_list bs as' = Inr False" using Cons.prems(2) True Cons by simp
        show "\<not> list_all2 py_eq bs as'" using Cons.prems(3) True Cons by simp
        show "list_all nan_free as'" using Cons.prems(4) Cons by simp
        show "list_all nan_free bs" using Cons.prems(5) by simp
      qed (rule Cons.prems(1), simp_all)
      then show ?thesis using ab Cons by simp
    next
      case False
      then have ab: "\<not> py_eq a b" using py_eq_sym by blast
      have "py_lt b a = Inr False" using Cons.prems(2) False Cons by simp
      moreover have "b \<in> set (b # bs)" by simp
      moreover have "nan_free a" "nan_free b" using Cons.prems(4,5) Cons by simp_all
      ultimately have "py_lt a b = Inr True"
        using False Cons.prems(1)[of b a] by simp
      then show ?thesis using ab Cons by simp
    qed
  qed
qed

lemma py_lt_total:
  "py_lt b a = Inr False \<Longrightarrow> \<not> py_eq b a \<Longrightarrow> nan_free a \<Longrightarrow> nan_free b \<Longrightarrow>
   py_lt a b = Inr True"
proof (induction b arbitrary: a rule: measure_induct_rule[where f=size])
  case (less b)
  from less.prems(1) show ?case
  proof (cases rule: py_lt_Inr_cases)
    case (num y x)
    have "x \<noteq> NaN" "y \<noteq> NaN"
      using num less.prems(3,4) nan_free_num by auto
    moreover have "x \<noteq> y" using less.prems(2) num by (simp add: py_eq_Some1)
    moreover have "\<not> float_lt y x" using num by simp
    ultimately have "float_lt x y" by (rule float_lt_total)
    then show ?thesis using num by (simp add: py_lt_Some1)
  next
    case (str s t)
    with less.prems(2) show ?thesis by auto
  next
    case (list bs as)
    have "lt_list as bs = Inr True"
    proof (rule lt_list_total_aux)
      fix a' b' assume b': "b' \<in> set bs" and p: "py_lt b' a' = Inr False" "\<not> py_eq b' a'"
        "nan_free a'" "nan_free b'"
      have "size b' < size b" using size_mem_list[OF b'] list by simp
      then show "py_lt a' b' = Inr True" using p by (rule less.IH)
    next
      show "lt_list bs as = Inr False" using list by simp
      show "\<not> list_all2 py_eq bs as" using less.prems(2) list by simp
      show "list_all nan_free as" using less.prems(3) list by simp
      show "list_all nan_free bs" using less.prems(4) list by simp
    qed
    then show ?thesis using list by simp
  qed
qed

lemma lt_list_total:
  "lt_list bs as = Inr False \<Longrightarrow> \<not> eq_list bs as \<Longrightarrow> list_all nan_free as \<Longrightarrow>
   list_all nan_free bs \<Longrightarrow> lt_list as bs = Inr True"
  unfolding eq_list_def by (rule lt_list_total_aux) (rule py_lt_total)

lemma lt_list_trans_aux:
  assumes "\<And>a b c. a \<in> set as \<Longrightarrow> nan_free a \<Longrightarrow> nan_free b \<Longrightarrow> nan_free c \<Longrightarrow>
      py_lt b a = Inr False \<Longrightarrow> py_lt c b = Inr False \<Longrightarrow> py_lt c a = Inr False"
    and "list_all nan_free as" and "list_all nan_free bs" and "list_all nan_free cs"
    and "lt_list bs as = Inr False" and "lt_list cs bs = Inr False"
  shows "lt_list cs as = Inr False"
  using assms
proof (induction as arbitrary: bs cs)
  case Nil
  then show ?case by (cases cs) auto
next
  case (Cons a as)
  from Cons.prems(5) obtain b bs' where bs: "bs = b # bs'" by (cases bs) auto
  from Cons.prems(6) bs obtain c cs' where cs: "cs = c # cs'" by (cases cs) auto
  have nf: "nan_free a" "nan_free b" "nan_free c"
    "list_all nan_free as" "list_all nan_free bs'" "list_all nan_free cs'"
    using Cons.prems(2,3,4) bs cs by simp_all
  have ba: "(if py_eq b a then lt_list bs' as else py_lt b a) = Inr False"
    using Cons.prems(5) bs by simp
  have cb: "(if py_eq c b then lt_list cs' bs' else py_lt c b) = Inr False"
    using Cons.prems(6) bs cs by simp
  have el: "py_lt c' a' = Inr False"
    if "a' \<in> set as" "nan_free a'" "nan_free b'" "nan_free c'"
      "py_lt b' a' = Inr False" "py_lt c' b' = Inr False" for a' b' c'
  proof -
    from that(1) have "a' \<in> set (a # as)" by simp
    then show ?thesis using that(2-6) by (rule Cons.prems(1))
  qed
  have tl: "lt_list cs' as = Inr False"
    if "lt_list bs' as = Inr False" "lt_list cs' bs' = Inr False"
    using el nf(4) nf(5) nf(6) that by (rule Cons.IH)
  show ?case
  proof (cases "py_eq b a")
    case eba: True
    show ?thesis
    proof (cases "py_eq c b")
      case True
      then have "py_eq c a" using eba by (rule py_eq_trans)
      then show ?thesis using tl ba cb eba True cs by simp
    next
      case False
      then have nca: "\<not> py_eq c a"
        using eba py_eq_sym py_eq_trans by blast
      have "py_lt c a = py_lt c b" using eba by (simp add: py_lt_cong2)
      then show ?thesis using nca cb False cs by simp
    qed
  next
    case nba: False
    then have lba: "py_lt b a = Inr False" using ba by simp
    show ?thesis
    proof (cases "py_eq c b")
      case True
      then have nca: "\<not> py_eq c a"
        using nba py_eq_sym py_eq_trans by blast
      have "py_lt c a = py_lt b a" using True by (rule py_lt_cong1)
      then show ?thesis using nca lba cs by simp
    next
      case False
      then have lcb: "py_lt c b = Inr False" using cb by simp
      show ?thesis
      proof (cases "py_eq c a")
        case True
        have "py_lt a b = Inr True"
          using lba nba nf(1,2) by (rule py_lt_total)
        moreover have "py_lt c b = py_lt a b" using True by (rule py_lt_cong1)
        ultimately show ?thesis using lcb by simp
      next
        case nca: False
        have "a \<in> set (a # as)" by simp
        then have "py_lt c a = Inr False"
          using nf(1) nf(2) nf(3) lba lcb by (rule Cons.prems(1))
        then show ?thesis using nca cs by simp
      qed
    qed
  qed
qed

lemma py_le_trans:
  "nan_free a \<Longrightarrow> nan_free b \<Longrightarrow> nan_free c \<Longrightarrow>
   py_lt b a = Inr False \<Longrightarrow> py_lt c b = Inr False \<Longrightarrow> py_lt c a = Inr False"
proof (induction a arbitrary: b c rule: measure_induct_rule[where f=size])
  case (less a)
  from less.prems(4) show ?case
  proof (cases rule: py_lt_Inr_cases)
    case (num y x)
    from less.prems(5) num(1) obtain z where z: "num_of c = Some z" "\<not> float_lt z y"
      by (cases rule: py_lt_Inr_cases) auto
    have "y \<noteq> NaN" using num less.prems(2) nan_free_num by auto
    moreover have "\<not> float_lt y x" using num by simp
    ultimately have "\<not> float_lt z x" using z(2) by (rule float_le_trans)
    then show ?thesis using z num by (simp add: py_lt_Some1)
  next
    case (str s t)
    from less.prems(5) str(1) obtain u where u: "c = JStr u" "\<not> u < s"
      by (cases rule: py_lt_Inr_cases) auto
    then show ?thesis using str by auto
  next
    case (list bs as)
    from less.prems(5) list(1) obtain cs where cs: "c = JList cs" "lt_list cs bs = Inr False"
      by (cases rule: py_lt_Inr_cases) auto
    have "lt_list cs as = Inr False"
    proof (rule lt_list_trans_aux)
      fix a' b' c' assume a': "a' \<in> set as" and p: "nan_free a'" "nan_free b'" "nan_free c'"
        "py_lt b' a' = Inr False" "py_lt c' b' = Inr False"
      have "size a' < size a" using size_mem_list[OF a'] list by simp
      then show "py_lt c' a' = Inr False" using p by (rule less.IH)
    next
      show "list_all nan_free as" using less.prems(1) list by simp
      show "list_all nan_free bs" using less.prems(2) list by simp
      show "list_all nan_free cs" using less.prems(3) cs by simp
      show "lt_list bs as = Inr False" using list by simp
      show "lt_list cs bs = Inr False" using cs by simp
    qed
    then show ?thesis using list cs by simp
  qed
qed

lemma lt_list_le_trans:
  "list_all nan_free as \<Longrightarrow> list_all nan_free bs \<Longrightarrow> list_all nan_free cs \<Longrightarrow>
   lt_list bs as = Inr False \<Longrightarrow> lt_list cs bs = Inr False \<Longrightarrow> lt_list cs as = Inr False"
  by (rule lt_list_trans_aux) (rule py_le_trans)

lemma lt_list_less_trans:
  assumes "list_all nan_free as" "list_all nan_free bs" "list_all nan_free cs"
    and "lt_list bs as = Inr True" and "lt_list cs bs = Inr True"
  shows "lt_list cs as = Inr True"
proof -
  have "lt_list as bs = Inr False" using assms(4) by (rule lt_list_asym)
  moreover have "lt_list bs cs = Inr False" using assms(5) by (rule lt_list_asym)
  ultimately have ac: "lt_list as cs = Inr False"
    using assms(1,2,3) lt_list_le_trans[of cs bs as] by simp
  have "\<not> eq_list as cs"
  proof
    assume "eq_list as cs"
    then have "eq_list cs as" by (rule eq_list_sym)
    then have "lt_list cs bs = lt_list as bs" by (rule lt_list_cong1)
    with assms(5) \<open>lt_list as bs = Inr False\<close> show False by simp
  qed
  with ac show ?thesis using assms(1,3) by (intro lt_list_total) simp_all
qed

section \<open>The sort is stable on keys that are not NaN\<close>

lemma chain_sorted_wrt:
  assumes "successively (\<lambda>p q. not_less q p) w"
    and "\<forall>p \<in> set w. list_all nan_free (fst p)"
  shows "sorted_wrt (\<lambda>p q. not_less q p) w"
proof -
  have "successively (\<lambda>p q. not_less q p) w \<longleftrightarrow> sorted_wrt (\<lambda>p q. not_less q p) w"
  proof (rule successively_iff_sorted_wrt_strong)
    fix x y z assume "x \<in> set w" "y \<in> set w" "z \<in> set w" "not_less y x" "not_less z y"
    with assms(2) show "not_less z x"
      unfolding not_less_def using lt_list_le_trans[of "fst x" "fst y" "fst z"] by simp
  qed
  with assms(1) show ?thesis by simp
qed

lemma descending_sorted_wrt:
  assumes "successively (\<lambda>p q. lt_list (fst q) (fst p) = Inr True) w"
    and "\<forall>p \<in> set w. list_all nan_free (fst p)"
  shows "sorted_wrt (\<lambda>p q. lt_list (fst q) (fst p) = Inr True) w"
proof -
  have "successively (\<lambda>p q. lt_list (fst q) (fst p) = Inr True) w \<longleftrightarrow>
      sorted_wrt (\<lambda>p q. lt_list (fst q) (fst p) = Inr True) w"
  proof (rule successively_iff_sorted_wrt_strong)
    fix x y z assume "x \<in> set w" "y \<in> set w" "z \<in> set w"
      "lt_list (fst y) (fst x) = Inr True" "lt_list (fst z) (fst y) = Inr True"
    with assms(2) show "lt_list (fst z) (fst x) = Inr True"
      using lt_list_less_trans[of "fst x" "fst y" "fst z"] by simp
  qed
  with assms(1) show ?thesis by simp
qed

lemma filter_rev_unique:
  "sorted_wrt (\<lambda>p q. \<not> (P p \<and> P q)) xs \<Longrightarrow> rev (filter P xs) = filter P xs"
proof (induction xs)
  case Nil
  then show ?case by simp
next
  case (Cons x xs)
  show ?case
  proof (cases "P x")
    case True
    with Cons.prems have "\<forall>y \<in> set xs. \<not> P y" by simp
    then have "filter P xs = []" by (simp add: filter_empty_conv)
    then show ?thesis using True by simp
  next
    case False
    with Cons show ?thesis by simp
  qed
qed

lemma binary_insert_filter:
  assumes "sorted_wrt (\<lambda>p q. not_less q p) w" and "binary_insert x w = Inr w'"
  shows "filter (\<lambda>p. eq_list (fst p) k) w' =
         filter (\<lambda>p. eq_list (fst p) k) w @ (if eq_list (fst x) k then [x] else [])"
  using assms
proof (induction w arbitrary: w' rule: length_induct)
  case (1 w)
  let ?E = "\<lambda>p. eq_list (fst p) k"
  let ?m = "length w div 2"
  from "1.prems"(2) show ?case
  proof (cases rule: binary_insert_cases)
    case empty
    then show ?thesis by simp
  next
    case (left l)
    have m: "?m < length w" using middle_less[OF left(1)] .
    have w: "w = take ?m w @ w ! ?m # drop (Suc ?m) w" using m by (rule id_take_nth_drop)
    have "sorted_wrt (\<lambda>p q. not_less q p) (take ?m w @ w ! ?m # drop (Suc ?m) w)"
      using "1.prems"(1) w by simp
    then have st: "sorted_wrt (\<lambda>p q. not_less q p) (take ?m w)"
      and ge: "\<forall>z \<in> set (drop (Suc ?m) w). not_less z (w ! ?m)"
      unfolding sorted_wrt_append by simp_all
    have "length (take ?m w) < length w" using m by simp
    with "1.IH" st left(3)
    have l: "filter ?E l = filter ?E (take ?m w) @ (if ?E x then [x] else [])" by blast
    have d: "drop ?m w = w ! ?m # drop (Suc ?m) w" using m by (simp add: Cons_nth_drop_Suc)
    have none: "filter ?E (drop ?m w) = []" if x: "?E x"
    proof -
      have "\<not> ?E z" if z: "z \<in> set (drop ?m w)" for z
      proof
        assume "?E z"
        then have "eq_list k (fst z)" by (rule eq_list_sym)
        with x have xz: "eq_list (fst x) (fst z)" by (rule eq_list_trans)
        from z d have "z = w ! ?m \<or> z \<in> set (drop (Suc ?m) w)" by auto
        then show False
        proof
          assume "z = w ! ?m"
          with left(2) lt_list_not_eq xz show False by blast
        next
          assume "z \<in> set (drop (Suc ?m) w)"
          with ge have "lt_list (fst z) (fst (w ! ?m)) = Inr False" by (simp add: not_less_def)
          moreover have "lt_list (fst x) (fst (w ! ?m)) = lt_list (fst z) (fst (w ! ?m))"
            using xz by (rule lt_list_cong1)
          ultimately show False using left(2) by simp
        qed
      qed
      then show ?thesis by (simp add: filter_empty_conv)
    qed
    have "filter ?E w = filter ?E (take ?m w) @ filter ?E (drop ?m w)"
      by (metis append_take_drop_id filter_append)
    moreover have "filter ?E w' = filter ?E l @ filter ?E (drop ?m w)"
      by (simp add: left(4))
    ultimately show ?thesis using l none by (cases "?E x") simp_all
  next
    case (right r)
    have m: "?m < length w" using middle_less[OF right(1)] .
    have "sorted_wrt (\<lambda>p q. not_less q p) (take (Suc ?m) w @ drop (Suc ?m) w)"
      using "1.prems"(1) by simp
    then have st: "sorted_wrt (\<lambda>p q. not_less q p) (drop (Suc ?m) w)"
      unfolding sorted_wrt_append by simp
    have "length (drop (Suc ?m) w) < length w" using m by simp
    with "1.IH" st right(3)
    have r: "filter ?E r = filter ?E (drop (Suc ?m) w) @ (if ?E x then [x] else [])" by blast
    have "filter ?E w = filter ?E (take (Suc ?m) w) @ filter ?E (drop (Suc ?m) w)"
      by (metis append_take_drop_id filter_append)
    moreover have "filter ?E w' = filter ?E (take (Suc ?m) w) @ filter ?E r"
      by (simp add: right(4))
    ultimately show ?thesis using r by simp
  qed
qed

lemma binarysort_filter:
  assumes "sorted_wrt (\<lambda>p q. not_less q p) run"
    and "\<forall>p \<in> set run. list_all nan_free (fst p)"
    and "\<forall>p \<in> set xs. list_all nan_free (fst p)"
    and "binarysort run xs = Inr out"
  shows "filter (\<lambda>p. eq_list (fst p) k) out =
         filter (\<lambda>p. eq_list (fst p) k) run @ filter (\<lambda>p. eq_list (fst p) k) xs"
  using assms
proof (induction xs arbitrary: run)
  case Nil
  then show ?case by simp
next
  case (Cons x xs)
  from Cons.prems(4) obtain run' where r: "binary_insert x run = Inr run'"
    and s: "binarysort run' xs = Inr out"
    by (auto split: sum.splits)
  have set': "set run' = insert x (set run)" using r by (rule binary_insert_set)
  have nf: "\<forall>p \<in> set run'. list_all nan_free (fst p)"
    using Cons.prems(2,3) by (simp add: set')
  have "successively (\<lambda>p q. not_less q p) run"
    using Cons.prems(1) by (rule successively_if_sorted_wrt)
  then have "successively (\<lambda>p q. not_less q p) run'" using r by (rule binary_insert_chain)
  then have sw: "sorted_wrt (\<lambda>p q. not_less q p) run'" using nf by (rule chain_sorted_wrt)
  have nx: "\<forall>p \<in> set xs. list_all nan_free (fst p)" using Cons.prems(3) by simp
  from Cons.IH[OF sw nf nx s] binary_insert_filter[OF Cons.prems(1) r, of k]
  show ?case by simp
qed

lemma count_run_descending:
  assumes "count_run ps = Inr (n, True)"
  shows "successively (\<lambda>p q. lt_list (fst q) (fst p) = Inr True) (take n ps)"
proof (cases ps rule: count_run.cases)
  case 1
  then show ?thesis by simp
next
  case (2 x)
  with assms show ?thesis by simp
next
  case (3 x y ys)
  show ?thesis
  proof (cases "lt_list (fst y) (fst x)")
    case (Inl e)
    with assms 3 show ?thesis by simp
  next
    case (Inr b)
    show ?thesis
    proof (cases b)
      case True
      with assms 3 Inr obtain k where k: "run_descending y ys = Inr k" and n: "n = k + 2"
        by (auto split: sum.splits)
      from run_descending_chain[OF k] Inr True show ?thesis by (simp add: n 3)
    next
      case False
      with assms 3 Inr show ?thesis by (auto split: sum.splits)
    qed
  qed
qed

lemma listsort_filter:
  assumes "listsort ps = Inr out" and "\<forall>p \<in> set ps. list_all nan_free (fst p)"
  shows "filter (\<lambda>p. eq_list (fst p) k) out = filter (\<lambda>p. eq_list (fst p) k) ps"
proof -
  let ?E = "\<lambda>p. eq_list (fst p) k"
  from assms(1) obtain n d where c: "count_run ps = Inr (n, d)"
    and b: "binarysort (if d then rev (take n ps) else take n ps) (drop n ps) = Inr out"
    by (auto simp: listsort_def split: sum.splits)
  define run where "run = (if d then rev (take n ps) else take n ps)"
  have b': "binarysort run (drop n ps) = Inr out" using b by (simp add: run_def)
  have nft: "\<forall>p \<in> set (take n ps). list_all nan_free (fst p)"
  proof
    fix p assume "p \<in> set (take n ps)"
    then have "p \<in> set ps" by (rule in_set_takeD)
    with assms(2) show "list_all nan_free (fst p)" by simp
  qed
  have nfd: "\<forall>p \<in> set (drop n ps). list_all nan_free (fst p)"
  proof
    fix p assume "p \<in> set (drop n ps)"
    then have "p \<in> set ps" by (rule in_set_dropD)
    with assms(2) show "list_all nan_free (fst p)" by simp
  qed
  have nfr: "\<forall>p \<in> set run. list_all nan_free (fst p)" using nft by (simp add: run_def)
  have "successively (\<lambda>p q. not_less q p) run"
    using count_run_chain[OF c] by (simp add: run_def)
  then have sw: "sorted_wrt (\<lambda>p q. not_less q p) run" using nfr by (rule chain_sorted_wrt)
  have run: "filter ?E run = filter ?E (take n ps)"
  proof (cases d)
    case False
    then show ?thesis by (simp add: run_def)
  next
    case True
    with c have "successively (\<lambda>p q. lt_list (fst q) (fst p) = Inr True) (take n ps)"
      by (simp add: count_run_descending)
    then have "sorted_wrt (\<lambda>p q. lt_list (fst q) (fst p) = Inr True) (take n ps)"
      using nft by (rule descending_sorted_wrt)
    then have "sorted_wrt (\<lambda>p q. \<not> (?E p \<and> ?E q)) (take n ps)"
    proof (rule sorted_wrt_mono_rel[rotated])
      fix p q assume "lt_list (fst q) (fst p) = Inr True"
      then have ne: "\<not> eq_list (fst q) (fst p)" by (rule lt_list_not_eq)
      show "\<not> (?E p \<and> ?E q)"
      proof
        assume e: "?E p \<and> ?E q"
        then have "eq_list k (fst p)" by (simp add: eq_list_sym)
        with e have "eq_list (fst q) (fst p)" using eq_list_trans by blast
        with ne show False by simp
      qed
    qed
    then have "rev (filter ?E (take n ps)) = filter ?E (take n ps)" by (rule filter_rev_unique)
    then show ?thesis using True by (simp add: run_def rev_filter)
  qed
  have "filter ?E out = filter ?E run @ filter ?E (drop n ps)"
    using sw nfr nfd b' by (rule binarysort_filter)
  also have "\<dots> = filter ?E (take n ps) @ filter ?E (drop n ps)" by (simp add: run)
  also have "\<dots> = filter ?E ps" by (metis append_take_drop_id filter_append)
  finally show ?thesis .
qed

lemma py_sorted_stable:
  assumes "py_sorted keyf xs = Inr ys" and "\<forall>x \<in> set xs. key_nan_free keyf x"
  shows "filter (has_key keyf k) ys = filter (has_key keyf k) xs"
proof -
  from assms(1) obtain ks ps where ks: "collect keyf xs = Inr ks"
    and ps: "listsort (zip ks xs) = Inr ps" and ys: "ys = map snd ps"
    by (auto simp: py_sorted_def split: sum.splits)
  have len: "length ks = length xs" using ks by (rule collect_length)
  have key: "has_key keyf k (snd p) = eq_list (fst p) k" if "p \<in> set (zip ks xs)" for p
    using collect_zip[OF ks that] by (simp add: has_key_def)
  have nf: "\<forall>p \<in> set (zip ks xs). list_all nan_free (fst p)"
  proof
    fix p assume p: "p \<in> set (zip ks xs)"
    then have "(fst p, snd p) \<in> set (zip ks xs)" by simp
    then have "snd p \<in> set xs" by (rule set_zip_rightD)
    with assms(2) have "key_nan_free keyf (snd p)" by simp
    then show "list_all nan_free (fst p)"
      using collect_zip[OF ks p] by (simp add: key_nan_free_def)
  qed
  have set_ps: "set ps = set (zip ks xs)" using ps by (rule listsort_set)
  have "filter (has_key keyf k) ys = map snd (filter (\<lambda>p. has_key keyf k (snd p)) ps)"
    by (simp add: ys filter_map comp_def)
  also have "filter (\<lambda>p. has_key keyf k (snd p)) ps = filter (\<lambda>p. eq_list (fst p) k) ps"
    by (rule filter_cong) (auto simp: set_ps key)
  also have "\<dots> = filter (\<lambda>p. eq_list (fst p) k) (zip ks xs)"
    using ps nf by (rule listsort_filter)
  also have "\<dots> = filter (\<lambda>p. has_key keyf k (snd p)) (zip ks xs)"
    by (rule filter_cong) (auto simp: key)
  also have "map snd \<dots> = filter (has_key keyf k) (map snd (zip ks xs))"
    by (simp add: filter_map comp_def)
  also have "map snd (zip ks xs) = xs" using len by simp
  finally show ?thesis .
qed

section \<open>Evaluating the sort engine\<close>

lemma sort_json_data_list:
  "sort_json_data loads (JList items) sort_keys reverse missing_key_strategy =
    (case normalize_reverse sort_keys reverse of
      Inl e \<Rightarrow> Inl e
    | Inr reverse_list \<Rightarrow>
        (case py_sorted (sort_key_of missing_key_strategy sort_keys reverse_list) items of
          Inl e \<Rightarrow> Inl e
        | Inr sorted_data \<Rightarrow> Inr (JList sorted_data)))"
  by (simp add: sort_json_data.simps)

text \<open>
  C4. The records \<open>{a:1}, {a:2}, {}\<close> sorted ascending by \<open>a\<close>: strategy \<open>last\<close> gives
  \<open>{a:1}, {a:2}, {}\<close>; strategy \<open>first\<close> gives \<open>{}, {a:1}, {a:2}\<close>; strategy \<open>error\<close>
  raises a \<open>KeyError\<close> whose message names the key \<open>a\<close>.
\<close>

theorem C4_missing_key_placement:
  "sort_json_data loads (JList [JDict [(''a'', JInt 1)], JDict [(''a'', JInt 2)], JDict []])
      [''a''] (RBool False) ''last''
    = Inr (JList [JDict [(''a'', JInt 1)], JDict [(''a'', JInt 2)], JDict []])
  \<and> sort_json_data loads (JList [JDict [(''a'', JInt 1)], JDict [(''a'', JInt 2)], JDict []])
      [''a''] (RBool False) ''first''
    = Inr (JList [JDict [], JDict [(''a'', JInt 1)], JDict [(''a'', JInt 2)]])
  \<and> sort_json_data loads (JList [JDict [(''a'', JInt 1)], JDict [(''a'', JInt 2)], JDict []])
      [''a''] (RBool False) ''error''
    = Inl (KeyError (key_not_found ''a''))
  \<and> key_not_found ''a'' = ''Key '' @ [CHR 0x27] @ ''a'' @ [CHR 0x27] @ '' not found in item''"
  by (simp add: sort_json_data_list normalize_reverse_def py_sorted_def listsort_def binary_insert.simps sort_key_of_def
      get_sort_value_def key_not_found_def)

lemma sort_json_data_wrapped:
  "sort_json_data loads (JDict [(key, JList v)]) sort_keys reverse s =
    (case sort_json_data loads (JList v) sort_keys reverse s of
      Inl e \<Rightarrow> Inl e
    | Inr sorted_list \<Rightarrow> Inr (JDict [(key, sorted_list)]))"
  by (subst sort_json_data.simps) simp

lemma sort_json_data_dict:
  "single_list_entry (JDict d) = None \<Longrightarrow>
   sort_json_data loads (JDict d) sort_keys reverse s =
   sort_json_data loads (JList [JDict d]) sort_keys reverse s"
  by (simp add: sort_json_data.simps)

lemma single_list_entry_Some:
  "single_list_entry data = Some (key, v) \<Longrightarrow> data = JDict [(key, JList v)]"
  by (induction data rule: single_list_entry.induct) auto

lemma sort_json_data_list_Inr:
  "sort_json_data loads (JList xs) sort_keys reverse s = Inr out \<Longrightarrow>
   \<exists>rl ys. normalize_reverse sort_keys reverse = Inr rl \<and>
     py_sorted (sort_key_of s sort_keys rl) xs = Inr ys \<and> out = JList ys"
  by (auto simp: sort_json_data_list split: sum.splits)

text \<open>
  C6, as the code has it. Stability, for keys without NaN: when no record's sort-key
  tuple holds a NaN (as a value or inside a list) and the sort succeeds, the records
  whose sort-key tuple equals a given tuple \<open>k\<close> (equal under \<^verbatim>\<open>==\<close> on every sort
  key) stand in the output in the order they have in the input. A NaN is neither
  smaller nor greater than any number, and the binary insertion of \<^verbatim>\<open>sorted\<close> then
  carries a record over records equal to it.
\<close>

theorem C6_stable_without_nan:
  assumes "data = JList xs \<or> data = JDict d"
    and "normalize_reverse sort_keys reverse = Inr reverse_list"
    and "\<forall>x \<in> set (records_of data).
          key_nan_free (sort_key_of missing_key_strategy sort_keys reverse_list) x"
    and "sort_json_data loads data sort_keys reverse missing_key_strategy = Inr out"
  shows "filter (has_key (sort_key_of missing_key_strategy sort_keys reverse_list) k) (records_of out) =
         filter (has_key (sort_key_of missing_key_strategy sort_keys reverse_list) k) (records_of data)"
proof -
  let ?f = "sort_key_of missing_key_strategy sort_keys reverse_list"
  have list: "filter (has_key ?f k) ys = filter (has_key ?f k) zs"
    if "sort_json_data loads (JList zs) sort_keys reverse missing_key_strategy = Inr (JList ys)"
      and "\<forall>x \<in> set zs. key_nan_free ?f x" for zs ys
  proof -
    from sort_json_data_list_Inr[OF that(1)] assms(2) have "py_sorted ?f zs = Inr ys" by auto
    then show ?thesis using that(2) by (rule py_sorted_stable)
  qed
  have shape: "\<exists>ys. o' = JList ys"
    if "sort_json_data loads (JList zs) sort_keys reverse missing_key_strategy = Inr o'" for zs o'
    using sort_json_data_list_Inr[OF that] by auto
  show ?thesis
  proof (cases "single_list_entry data")
    case (Some kv)
    obtain key v where kv: "kv = (key, v)" by (cases kv)
    have data: "data = JDict [(key, JList v)]"
      using Some kv by (simp add: single_list_entry_Some)
    from assms(4) obtain o' where o': "sort_json_data loads (JList v) sort_keys reverse missing_key_strategy = Inr o'"
      and out: "out = JDict [(key, o')]"
      by (auto simp: data sort_json_data_wrapped split: sum.splits)
    from shape[OF o'] obtain ys where ys: "o' = JList ys" by blast
    have nf: "\<forall>x \<in> set v. key_nan_free ?f x"
      using assms(3) by (simp add: data records_of_def)
    show ?thesis
      using list[OF o'[unfolded ys] nf] by (simp add: out ys data records_of_def)
  next
    case None
    show ?thesis
    proof (cases data)
      case (JList zs)
      from shape[OF assms(4)[unfolded JList]] obtain ys where ys: "out = JList ys" by blast
      have nf: "\<forall>x \<in> set zs. key_nan_free ?f x"
        using assms(3) by (simp add: JList records_of_def)
      show ?thesis
        using list[OF assms(4)[unfolded JList ys] nf] by (simp add: ys JList records_of_def)
    next
      case (JDict e)
      have s: "sort_json_data loads (JList [JDict e]) sort_keys reverse missing_key_strategy = Inr out"
        using assms(4) None by (simp add: JDict sort_json_data_dict)
      from shape[OF s] obtain ys where ys: "out = JList ys" by blast
      have nf: "\<forall>x \<in> set [JDict e]. key_nan_free ?f x"
        using assms(3) None by (simp add: JDict records_of_def)
      show ?thesis
        using list[OF s[unfolded ys] nf] None by (simp add: ys JDict records_of_def)
    qed (use assms(1) in auto)
  qed
qed

theorem C6_stable_without_nan_witness:
  "sort_json_data loads_invalid
      (JList [JDict [(''a'', JInt 1), (''id'', JInt 1)], JDict [(''a'', JInt 0), (''id'', JInt 2)],
              JDict [(''a'', JFloat (Finite 1)), (''id'', JInt 3)]])
      [''a''] (RBool False) ''last''
    = Inr (JList [JDict [(''a'', JInt 0), (''id'', JInt 2)], JDict [(''a'', JInt 1), (''id'', JInt 1)],
              JDict [(''a'', JFloat (Finite 1)), (''id'', JInt 3)]])
   \<and> filter (has_key (sort_key_of ''last'' [''a''] [False]) [JInt 1])
        (records_of (JList [JDict [(''a'', JInt 0), (''id'', JInt 2)],
              JDict [(''a'', JInt 1), (''id'', JInt 1)],
              JDict [(''a'', JFloat (Finite 1)), (''id'', JInt 3)]]))
     = [JDict [(''a'', JInt 1), (''id'', JInt 1)], JDict [(''a'', JFloat (Finite 1)), (''id'', JInt 3)]]"
proof -
  let ?xs = "[JDict [(''a'', JInt 1), (''id'', JInt 1)], JDict [(''a'', JInt 0), (''id'', JInt 2)],
              JDict [(''a'', JFloat (Finite 1)), (''id'', JInt 3)]]"
  let ?ys = "[JDict [(''a'', JInt 0), (''id'', JInt 2)], JDict [(''a'', JInt 1), (''id'', JInt 1)],
              JDict [(''a'', JFloat (Finite 1)), (''id'', JInt 3)]]"
  have n: "normalize_reverse [''a''] (RBool False) = Inr [False]"
    by (simp add: normalize_reverse_def)
  have f: "\<forall>x \<in> set (records_of (JList ?xs)). key_nan_free (sort_key_of ''last'' [''a''] [False]) x"
    by (simp add: records_of_def key_nan_free_def sort_key_of_def get_sort_value_def)
  have s: "sort_json_data loads_invalid (JList ?xs) [''a''] (RBool False) ''last'' = Inr (JList ?ys)"
    by (simp add: sort_json_data_list normalize_reverse_def py_sorted_def listsort_def
        binary_insert.simps sort_key_of_def get_sort_value_def)
  have "filter (has_key (sort_key_of ''last'' [''a''] [False]) [JInt 1]) (records_of (JList ?ys)) =
        filter (has_key (sort_key_of ''last'' [''a''] [False]) [JInt 1]) (records_of (JList ?xs))"
    using C6_stable_without_nan[of "JList ?xs" ?xs _ "[''a'']" "RBool False" "[False]" "''last''"
        loads_invalid "JList ?ys"] n f s
    by blast
  also have "\<dots> = [JDict [(''a'', JInt 1), (''id'', JInt 1)], JDict [(''a'', JFloat (Finite 1)), (''id'', JInt 3)]]"
    by (simp add: records_of_def has_key_def sort_key_of_def get_sort_value_def eq_list_def)
  finally show ?thesis using s by simp
qed

theorem C6_counterexample:
  "sort_json_data loads_invalid
      (JList [JDict [(''a'', JFloat NaN), (''id'', JInt 0)], JDict [(''a'', JFloat NaN), (''id'', JInt 1)],
              JDict [(''a'', JInt 1), (''id'', JInt 2)], JDict [(''a'', JInt 0), (''id'', JInt 3)],
              JDict [(''a'', JFloat NaN), (''id'', JInt 4)], JDict [(''a'', JInt 0), (''id'', JInt 5)],
              JDict [(''a'', JInt 0), (''id'', JInt 6)]])
      [''a''] (RBool False) ''last''
    = Inr (JList [JDict [(''a'', JFloat NaN), (''id'', JInt 0)], JDict [(''a'', JFloat NaN), (''id'', JInt 1)],
              JDict [(''a'', JInt 0), (''id'', JInt 3)], JDict [(''a'', JInt 0), (''id'', JInt 6)],
              JDict [(''a'', JInt 1), (''id'', JInt 2)], JDict [(''a'', JFloat NaN), (''id'', JInt 4)],
              JDict [(''a'', JInt 0), (''id'', JInt 5)]])
   \<and> filter (has_key (sort_key_of ''last'' [''a''] [False]) [JInt 0])
        (records_of (JList [JDict [(''a'', JFloat NaN), (''id'', JInt 0)], JDict [(''a'', JFloat NaN), (''id'', JInt 1)],
              JDict [(''a'', JInt 1), (''id'', JInt 2)], JDict [(''a'', JInt 0), (''id'', JInt 3)],
              JDict [(''a'', JFloat NaN), (''id'', JInt 4)], JDict [(''a'', JInt 0), (''id'', JInt 5)],
              JDict [(''a'', JInt 0), (''id'', JInt 6)]]))
     = [JDict [(''a'', JInt 0), (''id'', JInt 3)], JDict [(''a'', JInt 0), (''id'', JInt 5)],
        JDict [(''a'', JInt 0), (''id'', JInt 6)]]
   \<and> filter (has_key (sort_key_of ''last'' [''a''] [False]) [JInt 0])
        (records_of (JList [JDict [(''a'', JFloat NaN), (''id'', JInt 0)], JDict [(''a'', JFloat NaN), (''id'', JInt 1)],
              JDict [(''a'', JInt 0), (''id'', JInt 3)], JDict [(''a'', JInt 0), (''id'', JInt 6)],
              JDict [(''a'', JInt 1), (''id'', JInt 2)], JDict [(''a'', JFloat NaN), (''id'', JInt 4)],
              JDict [(''a'', JInt 0), (''id'', JInt 5)]]))
     = [JDict [(''a'', JInt 0), (''id'', JInt 3)], JDict [(''a'', JInt 0), (''id'', JInt 6)],
        JDict [(''a'', JInt 0), (''id'', JInt 5)]]"
  by (simp add: sort_json_data_list normalize_reverse_def py_sorted_def listsort_def
      binary_insert.simps sort_key_of_def get_sort_value_def records_of_def has_key_def
      eq_list_def)





text \<open>
  C1. The docstring of \<^verbatim>\<open>sort_json_data\<close> reads ``reverse: True for descending'', but
  the flag only selects the sentinel of a missing or null value: \<^verbatim>\<open>sorted\<close> is called
  without \<^verbatim>\<open>reverse\<close> and no key is negated. The records \<open>{a:1}, {a:2}\<close> sorted by
  \<open>a\<close> with \<^verbatim>\<open>reverse=True\<close> come back ascending, and so do \<open>{a:2}, {a:1}\<close>.
\<close>

theorem C1_reverse_flag_does_not_reverse:
  "sort_json_data loads (JList [JDict [(''a'', JInt 1)], JDict [(''a'', JInt 2)]])
      [''a''] (RBool True) ''last''
    = Inr (JList [JDict [(''a'', JInt 1)], JDict [(''a'', JInt 2)]])
  \<and> sort_json_data loads (JList [JDict [(''a'', JInt 2)], JDict [(''a'', JInt 1)]])
      [''a''] (RBool True) ''last''
    = Inr (JList [JDict [(''a'', JInt 1)], JDict [(''a'', JInt 2)]])"
  by (simp add: sort_json_data_list normalize_reverse_def py_sorted_def listsort_def binary_insert.simps sort_key_of_def
      get_sort_value_def)

text \<open>
  C8. Wrapping preservation: for a dict with exactly one entry whose value is a
  list, the sort of the dict is the sort of that list put back under the same key,
  and it fails exactly as the sort of the list fails.
\<close>

theorem C8_wrapping_preserved:
  "(sort_json_data loads (JList v) sort_keys reverse missing_key_strategy = Inr sorted_list \<longrightarrow>
      sort_json_data loads (JDict [(key, JList v)]) sort_keys reverse missing_key_strategy
        = Inr (JDict [(key, sorted_list)]) \<and> (\<exists>ys. sorted_list = JList ys))
   \<and> (sort_json_data loads (JList v) sort_keys reverse missing_key_strategy = Inl e \<longrightarrow>
      sort_json_data loads (JDict [(key, JList v)]) sort_keys reverse missing_key_strategy = Inl e)"
  using sort_json_data_list_Inr[of loads v sort_keys reverse missing_key_strategy sorted_list]
  by (auto simp: sort_json_data_wrapped)

theorem C8_wrapping_preserved_witness:
  "sort_json_data loads_invalid (JList [JDict [(''a'', JInt 2)], JDict [(''a'', JInt 1)]])
      [''a''] (RBool False) ''last''
    = Inr (JList [JDict [(''a'', JInt 1)], JDict [(''a'', JInt 2)]])
   \<and> sort_json_data loads_invalid (JDict [(''items'', JList [JDict [(''a'', JInt 2)], JDict [(''a'', JInt 1)]])])
      [''a''] (RBool False) ''last''
    = Inr (JDict [(''items'', JList [JDict [(''a'', JInt 1)], JDict [(''a'', JInt 2)]])])"
proof -
  have s: "sort_json_data loads_invalid (JList [JDict [(''a'', JInt 2)], JDict [(''a'', JInt 1)]])
      [''a''] (RBool False) ''last''
    = Inr (JList [JDict [(''a'', JInt 1)], JDict [(''a'', JInt 2)]])"
    by (simp add: sort_json_data_list normalize_reverse_def py_sorted_def listsort_def binary_insert.simps sort_key_of_def
        get_sort_value_def)
  from C8_wrapping_preserved[of loads_invalid "[JDict [(''a'', JInt 2)], JDict [(''a'', JInt 1)]]"
      "[''a'']" "RBool False" "''last''" "JList [JDict [(''a'', JInt 1)], JDict [(''a'', JInt 2)]]"
      "''items''"] s
  show ?thesis by blast
qed

lemma collect_error: "collect f xs = Inl e \<Longrightarrow> \<exists>x \<in> set xs. f x = Inl e"
  by (induction xs) (auto split: sum.splits)

lemma py_contains_error: "py_contains item key = Inl e \<Longrightarrow> e = TypeError"
  by (cases item) auto

lemma py_getitem_error: "py_getitem item key = Inl e \<Longrightarrow> e = TypeError \<or> e = KeyError key"
  by (cases item) (auto split: option.splits)

lemma get_sort_value_error:
  "get_sort_value s item key r = Inl e \<Longrightarrow> e \<noteq> ValueError"
  by (auto simp: get_sort_value_def split: sum.splits if_splits
      dest: py_contains_error py_getitem_error)

lemma sort_key_of_error: "sort_key_of s ks rl item = Inl e \<Longrightarrow> e \<noteq> ValueError"
  unfolding sort_key_of_def
  by (auto dest!: collect_error dest: get_sort_value_error)

lemma py_sorted_error: "py_sorted (sort_key_of s ks rl) xs = Inl e \<Longrightarrow> e \<noteq> ValueError"
  by (auto simp: py_sorted_def split: sum.splits
      dest!: collect_error dest: sort_key_of_error listsort_error)

lemma normalize_reverse_error:
  "normalize_reverse sort_keys reverse = Inl e \<longleftrightarrow>
   e = ValueError \<and> (\<exists>rs. reverse = RList rs \<and> length rs \<noteq> length sort_keys)"
  by (auto simp: normalize_reverse_def split: reverse_arg.splits)

lemma sort_json_data_list_ValueError:
  "sort_json_data loads (JList xs) sort_keys reverse s = Inl ValueError \<longleftrightarrow>
   (\<exists>rs. reverse = RList rs \<and> length rs \<noteq> length sort_keys)"
proof (cases "normalize_reverse sort_keys reverse")
  case (Inl e)
  then show ?thesis
    using normalize_reverse_error[of sort_keys reverse e] by (auto simp: sort_json_data_list)
next
  case (Inr rl)
  then have "\<not> (\<exists>rs. reverse = RList rs \<and> length rs \<noteq> length sort_keys)"
    by (auto simp: normalize_reverse_def split: if_splits)
  moreover have "sort_json_data loads (JList xs) sort_keys reverse s \<noteq> Inl ValueError"
    using Inr by (auto simp: sort_json_data_list split: sum.splits dest: py_sorted_error)
  ultimately show ?thesis by simp
qed

text \<open>
  C5, as the code has it. For a collection given as a list or a dict, the sort
  fails with \<open>ValueError\<close> exactly when \<^verbatim>\<open>reverse\<close> is a list whose length differs
  from the number of sort keys; whatever the records hold, no other error comes
  first. An empty key list and an unknown strategy are not rejected.
\<close>

theorem C5_value_error_iff_length_mismatch:
  assumes "data = JList xs \<or> data = JDict d"
  shows "sort_json_data loads data sort_keys reverse missing_key_strategy = Inl ValueError \<longleftrightarrow>
         (\<exists>rs. reverse = RList rs \<and> length rs \<noteq> length sort_keys)"
proof (cases "single_list_entry data")
  case (Some kv)
  obtain key v where kv: "kv = (key, v)" by (cases kv)
  have data: "data = JDict [(key, JList v)]"
    using Some kv by (simp add: single_list_entry_Some)
  have "sort_json_data loads data sort_keys reverse missing_key_strategy = Inl ValueError \<longleftrightarrow>
        sort_json_data loads (JList v) sort_keys reverse missing_key_strategy = Inl ValueError"
    by (auto simp: data sort_json_data_wrapped split: sum.splits)
  then show ?thesis by (simp add: sort_json_data_list_ValueError)
next
  case None
  show ?thesis
  proof (cases data)
    case (JList zs)
    then show ?thesis by (simp add: sort_json_data_list_ValueError)
  next
    case (JDict e)
    then show ?thesis
      using None by (simp add: sort_json_data_dict sort_json_data_list_ValueError)
  qed (use assms in auto)
qed

theorem C5_value_error_witness:
  "sort_json_data loads_invalid (JList [JDict [(''a'', JInt 1)], JDict []])
     [''a'', ''b'', ''c''] (RList [True, False]) ''error'' = Inl ValueError"
  using C5_value_error_iff_length_mismatch[of "JList [JDict [(''a'', JInt 1)], JDict []]"
      "[JDict [(''a'', JInt 1)], JDict []]" _ loads_invalid "[''a'', ''b'', ''c'']"
      "RList [True, False]" "''error''"]
  by simp

theorem C5_counterexample:
  "sort_json_data loads_invalid (JList [JDict [(''a'', JInt 2)], JDict [(''a'', JInt 1)]])
     [] (RBool False) ''last''
   = Inr (JList [JDict [(''a'', JInt 2)], JDict [(''a'', JInt 1)]])
   \<and> sort_json_data loads_invalid (JList [JDict [(''a'', JInt 2)], JDict [(''a'', JInt 1)]])
     [''a''] (RBool False) ''middle''
   = Inr (JList [JDict [(''a'', JInt 1)], JDict [(''a'', JInt 2)]])"
  by (simp add: sort_json_data_list normalize_reverse_def py_sorted_def listsort_def binary_insert.simps sort_key_of_def
      get_sort_value_def)

lemma sort_key_of_Cons:
  "sort_key_of s (key # rest) (r # rs) item = Inr k \<Longrightarrow>
   \<exists>u t. get_sort_value s item key r = Inr u \<and> k = u # t"
  by (auto simp: sort_key_of_def split: sum.splits)

lemma collect_in_zip:
  "collect f xs = Inr ks \<Longrightarrow> x \<in> set xs \<Longrightarrow> \<exists>k. (k, x) \<in> set (zip ks xs) \<and> f x = Inr k"
  by (induction xs arbitrary: ks) (auto split: sum.splits)

text \<open>
  C10, as the code has it. Take the first sort key, and suppose that every key
  tuple is computed without error. When one record has a number as comparison
  value there (such is the infinity put in for a missing key or for null) and
  another record holds a value that is no number and no boolean (a string, a list,
  a dict), the sort fails with \<open>TypeError\<close>.
\<close>

theorem C10_infinity_meets_text:
  assumes "normalize_reverse (key # rest) reverse = Inr (r # rs)"
    and "collect (sort_key_of missing_key_strategy (key # rest) (r # rs)) xs = Inr ks"
    and "x \<in> set xs" and "get_sort_value missing_key_strategy x key r = Inr u"
    and "num_of u \<noteq> None"
    and "y \<in> set xs" and "get_sort_value missing_key_strategy y key r = Inr v"
    and "num_of v = None"
  shows "sort_json_data loads (JList xs) (key # rest) reverse missing_key_strategy = Inl TypeError"
proof -
  let ?f = "sort_key_of missing_key_strategy (key # rest) (r # rs)"
  from collect_in_zip[OF assms(2,3)] obtain kx where kx: "(kx, x) \<in> set (zip ks xs)" "?f x = Inr kx"
    by blast
  from collect_in_zip[OF assms(2,6)] obtain ky where ky: "(ky, y) \<in> set (zip ks xs)" "?f y = Inr ky"
    by blast
  from sort_key_of_Cons[OF kx(2)] assms(4) obtain tx where tx: "kx = u # tx" by auto
  from sort_key_of_Cons[OF ky(2)] assms(7) obtain ty where ty: "ky = v # ty" by auto
  have ne: "\<forall>q \<in> set (zip ks xs). fst q \<noteq> []"
  proof
    fix q assume q: "q \<in> set (zip ks xs)"
    have "?f (snd q) = Inr (fst q)" using assms(2) q by (rule collect_zip)
    from sort_key_of_Cons[OF this] show "fst q \<noteq> []" by auto
  qed
  have "listsort (zip ks xs) = Inl TypeError"
  proof (cases "listsort (zip ks xs)")
    case (Inl e)
    then show ?thesis by (simp add: listsort_error)
  next
    case (Inr out)
    from listsort_all_same_kind[OF Inr ne kx(1) ky(1)]
    have False using assms(5,8) by (simp add: head_is_text_def tx ty)
    then show ?thesis ..
  qed
  then show ?thesis
    by (simp add: sort_json_data_list assms(1,2) py_sorted_def)
qed

theorem C10_infinity_meets_text_witness:
  "sort_json_data loads_invalid (JList [JDict [(''a'', JStr ''x'')], JDict [], JDict [(''a'', JStr ''y'')]])
     [''a''] (RBool False) ''last'' = Inl TypeError"
proof -
  let ?xs = "[JDict [(''a'', JStr ''x'')], JDict [], JDict [(''a'', JStr ''y'')]]"
  have "sort_json_data loads_invalid (JList ?xs) (''a'' # []) (RBool False) ''last'' = Inl TypeError"
  proof (rule C10_infinity_meets_text)
    show "normalize_reverse [''a''] (RBool False) = Inr [False]"
      by (simp add: normalize_reverse_def)
    show "collect (sort_key_of ''last'' [''a''] [False]) ?xs =
        Inr [[JStr ''x''], [JFloat PosInf], [JStr ''y'']]"
      by (simp add: sort_key_of_def get_sort_value_def)
    show "JDict [] \<in> set ?xs" by simp
    show "get_sort_value ''last'' (JDict []) ''a'' False = Inr (JFloat PosInf)"
      by (simp add: get_sort_value_def)
    show "num_of (JFloat PosInf) \<noteq> None" by simp
    show "JDict [(''a'', JStr ''y'')] \<in> set ?xs" by simp
    show "get_sort_value ''last'' (JDict [(''a'', JStr ''y'')]) ''a'' False = Inr (JStr ''y'')"
      by (simp add: get_sort_value_def)
    show "num_of (JStr ''y'') = None" by simp
  qed
  then show ?thesis .
qed

theorem C10_counterexample:
  "sort_json_data loads_invalid
     (JList [JDict [(''a'', JInt 1)], JDict [(''a'', JInt 2), (''b'', JStr ''x'')]])
     [''a'', ''b''] (RBool False) ''last''
   = Inr (JList [JDict [(''a'', JInt 1)], JDict [(''a'', JInt 2), (''b'', JStr ''x'')]])
   \<and> get_sort_value ''last'' (JDict [(''a'', JInt 1)]) ''b'' False = Inr (JFloat PosInf)
   \<and> get_sort_value ''last'' (JDict [(''a'', JInt 2), (''b'', JStr ''x'')]) ''b'' False = Inr (JStr ''x'')
   \<and> sort_json_data loads_invalid (JList [JDict [], JDict [(''a'', JBool True)]])
     [''a''] (RBool False) ''last''
   = Inr (JList [JDict [(''a'', JBool True)], JDict []])"
  by (simp add: sort_json_data_list normalize_reverse_def py_sorted_def listsort_def binary_insert.simps sort_key_of_def
      get_sort_value_def)










text \<open>
  Why the placement asks for keys without NaN: \<open>{a:5}, {a:NaN}, {a:null}\<close> sorted
  ascending by \<open>a\<close> come back in this order, the null record last.
\<close>

lemma null_after_nan:
  "sort_json_data loads (JList [JDict [(''a'', JInt 5)], JDict [(''a'', JFloat NaN)],
        JDict [(''a'', JNull)]]) [''a''] (RBool False) ''last''
    = Inr (JList [JDict [(''a'', JInt 5)], JDict [(''a'', JFloat NaN)], JDict [(''a'', JNull)]])"
  by (simp add: sort_json_data_list normalize_reverse_def py_sorted_def listsort_def
      binary_insert.simps sort_key_of_def get_sort_value_def)

text \<open>
  C3. A record that lacks the dict at the head of a dot path lacks the key, and the
  help of \<^verbatim>\<open>--missing-key\<close> (``How to handle missing keys'', with the example
  \<^verbatim>\<open>--keys "user.name" "user.age" --missing-key last\<close>) promises the strategy for
  it, as a plain key gets it. But the flattening stores \<^verbatim>\<open>None\<close> for a path that
  fails, so the key is present when the sort looks for it: for the document
  \<open>[{user: {age: 30}}, {name: x}]\<close> and the key \<open>user.age\<close>, strategy \<open>error\<close>
  raises nothing and strategy \<open>last\<close> puts the record without \<open>user\<close> first.
  The same two records with the plain key \<open>age\<close> end the program under \<open>error\<close>
  and put the record without the key last under \<open>last\<close>. The path of
  \<open>{user: {age: 30}}\<close> resolves to 30.
\<close>

theorem C3_failed_path_ignores_strategy:
  "main_sorted_data loads
      (JList [JDict [(''user'', JDict [(''age'', JInt 30)])], JDict [(''name'', JStr ''x'')]])
      [''user.age''] None ''error''
    = Inr (JList [JDict [(''name'', JStr ''x'')], JDict [(''user'', JDict [(''age'', JInt 30)])]])
  \<and> main_sorted_data loads
      (JList [JDict [(''user'', JDict [(''age'', JInt 30)])], JDict [(''name'', JStr ''x'')]])
      [''user.age''] None ''last''
    = Inr (JList [JDict [(''name'', JStr ''x'')], JDict [(''user'', JDict [(''age'', JInt 30)])]])
  \<and> main_sorted_data loads
      (JList [JDict [(''age'', JInt 30)], JDict [(''name'', JStr ''x'')]])
      [''age''] None ''error''
    = Inl SystemExit
  \<and> main_sorted_data loads
      (JList [JDict [(''age'', JInt 30)], JDict [(''name'', JStr ''x'')]])
      [''age''] None ''last''
    = Inr (JList [JDict [(''age'', JInt 30)], JDict [(''name'', JStr ''x'')]])
  \<and> get_nested_value (JDict [(''user'', JDict [(''age'', JInt 30)])]) ''user.age'' = Inr (JInt 30)"
  by (simp add: main_sorted_data_def sort_and_restore_def parse_reverse_def
      prepare_data_with_nested_keys_def flatten_key_def get_nested_value_def
      sort_json_data_list normalize_reverse_def py_sorted_def listsort_def binary_insert.simps sort_key_of_def get_sort_value_def)

section \<open>The store is not written\<close>

lemma unchanged_refl: "unchanged s s"
  by (simp add: unchanged_def)

lemma take_length_le: "take n xs = ys \<Longrightarrow> n = length ys \<Longrightarrow> n \<le> length xs"
proof -
  assume "take n xs = ys" and "n = length ys"
  then have "length (take n xs) = n" by simp
  then show ?thesis by simp
qed

lemma unchanged_length:
  "unchanged s0 s \<Longrightarrow> length (dicts s0) \<le> length (dicts s) \<and> length (lists s0) \<le> length (lists s)"
proof -
  assume u: "unchanged s0 s"
  have "length (dicts s0) \<le> length (dicts s)"
    using u by (intro take_length_le[of _ _ "dicts s0"]) (simp_all add: unchanged_def)
  moreover have "length (lists s0) \<le> length (lists s)"
    using u by (intro take_length_le[of _ _ "lists s0"]) (simp_all add: unchanged_def)
  ultimately show ?thesis by simp
qed

lemma unchanged_new_dict: "unchanged s0 s \<Longrightarrow> unchanged s0 (fst (new_dict s d))"
  using unchanged_length[of s0 s] by (simp add: unchanged_def new_dict_def)

lemma unchanged_new_list: "unchanged s0 s \<Longrightarrow> unchanged s0 (fst (new_list s refs))"
  using unchanged_length[of s0 s] by (simp add: unchanged_def new_list_def)

lemma unchanged_list_append:
  "unchanged s0 s \<Longrightarrow> length (lists s0) \<le> l \<Longrightarrow> unchanged s0 (list_append s l a)"
  by (simp add: unchanged_def list_append_def)

lemma unchanged_dict_setitem:
  "unchanged s0 s \<Longrightarrow> length (dicts s0) \<le> a \<Longrightarrow> unchanged s0 (dict_setitem s a k v)"
  by (simp add: unchanged_def dict_setitem_def)

lemma unchanged_flatten_keys_st:
  "unchanged s0 s \<Longrightarrow> length (dicts s0) \<le> flat_item \<Longrightarrow>
   unchanged s0 (flatten_keys_st s item flat_item sort_keys)"
  by (induction sort_keys arbitrary: s) (simp_all add: unchanged_dict_setitem)

lemma unchanged_prepare_loop_st:
  "unchanged s0 s \<Longrightarrow> length (lists s0) \<le> prepared_data \<Longrightarrow>
   unchanged s0 (prepare_loop_st s prepared_data items sort_keys)"
proof (induction items arbitrary: s)
  case Nil
  then show ?case by simp
next
  case (Cons item items)
  let ?s1 = "fst (new_dict s (dicts s ! item))"
  let ?flat = "length (dicts s)"
  have 1: "unchanged s0 ?s1" using Cons.prems(1) by (rule unchanged_new_dict)
  have "length (dicts s0) \<le> ?flat" using unchanged_length[OF Cons.prems(1)] by simp
  with 1 have "unchanged s0 (flatten_keys_st ?s1 item ?flat sort_keys)"
    by (rule unchanged_flatten_keys_st)
  then have "unchanged s0 (list_append (flatten_keys_st ?s1 item ?flat sort_keys) prepared_data ?flat)"
    using Cons.prems(2) by (rule unchanged_list_append)
  then have "unchanged s0 (prepare_loop_st
      (list_append (flatten_keys_st ?s1 item ?flat sort_keys) prepared_data ?flat)
      prepared_data items sort_keys)"
    using Cons.prems(2) by (rule Cons.IH)
  then show ?case by (simp add: new_dict_def)
qed

lemma prepare_st_unchanged:
  assumes "prepare_data_with_nested_keys_st s data sort_keys = (s', prepared_data)"
  shows "unchanged s s' \<and> fresh s (ListRef prepared_data)"
proof -
  have p: "prepared_data = length (lists s)"
    and s': "s' = prepare_loop_st (fst (new_list s [])) prepared_data (lists s ! data) sort_keys"
    using assms by (auto simp: prepare_data_with_nested_keys_st_def new_list_def)
  have "unchanged s (fst (new_list s []))"
    using unchanged_refl by (rule unchanged_new_list)
  then have "unchanged s s'"
    unfolding s' by (rule unchanged_prepare_loop_st) (simp add: p)
  then show ?thesis by (simp add: p)
qed

lemma sorted_st_unchanged:
  assumes "sorted_st s l sort_keys reverse strat = Inr (s', r)"
  shows "s' = fst (new_list s (lists s' ! length (lists s))) \<and> r = ListRef (length (lists s))"
  using assms by (auto simp: sorted_st_def new_list_def split: sum.splits)

lemma sort_json_data_st_unchanged:
  assumes "sort_json_data_st loads s data sort_keys reverse strat = Inr (s', r)"
  shows "unchanged s s' \<and> fresh s r"
proof (cases data)
  case (ListRef l)
  with assms have "sorted_st s l sort_keys reverse strat = Inr (s', r)"
    by (simp add: sort_json_data_st_def)
  from sorted_st_unchanged[OF this]
  have s': "s' = fst (new_list s (lists s' ! length (lists s)))"
    and r: "r = ListRef (length (lists s))" by simp_all
  have "unchanged s (fst (new_list s (lists s' ! length (lists s))))"
    using unchanged_refl by (rule unchanged_new_list)
  then have "unchanged s s'" using s' by simp
  then show ?thesis by (simp add: r)
next
  case (DictRef a)
  show ?thesis
  proof (cases "single_list_entry (item_at s a)")
    case None
    let ?s1 = "fst (new_list s [a])"
    from assms DictRef None have "sorted_st ?s1 (length (lists s)) sort_keys reverse strat = Inr (s', r)"
      by (simp add: sort_json_data_st_def new_list_def)
    from sorted_st_unchanged[OF this]
    have s': "s' = fst (new_list ?s1 (lists s' ! length (lists ?s1)))"
      and r: "r = ListRef (length (lists ?s1))" by simp_all
    have "unchanged s ?s1" using unchanged_refl by (rule unchanged_new_list)
    then have "unchanged s (fst (new_list ?s1 (lists s' ! length (lists ?s1))))"
      by (rule unchanged_new_list)
    then show ?thesis using s' r by (simp add: new_list_def)
  next
    case (Some kv)
    with assms DictRef obtain key sl where "s' = fst (new_dict s [(key, sl)])"
      and "r = DictRef (length (dicts s))"
      by (auto simp: sort_json_data_st_def new_dict_def split: sum.splits prod.splits)
    then show ?thesis
      using unchanged_new_dict[OF unchanged_refl, of s] by simp
  qed
qed


lemma flatten_keys_st_lists: "lists (flatten_keys_st s item flat_item sort_keys) = lists s"
  by (induction sort_keys arbitrary: s) (simp_all add: dict_setitem_def)

lemma flatten_keys_st_closed:
  assumes "flat_item < length (dicts s)" and "item \<noteq> flat_item"
  shows "flatten_keys_st s item flat_item sort_keys =
    s\<lparr>dicts := (dicts s)[flat_item :=
      fold (flatten_key (item_at s item)) sort_keys (dicts s ! flat_item)]\<rparr>"
  using assms
proof (induction sort_keys arbitrary: s)
  case Nil
  then show ?case by simp
next
  case (Cons k ks)
  show ?case
  proof (cases "CHR ''.'' \<in> set k")
    case False
    then show ?thesis using Cons by (simp add: flatten_key_def)
  next
    case True
    let ?v = "case get_nested_value (item_at s item) k of Inr v \<Rightarrow> v | Inl e \<Rightarrow> JNull"
    let ?s1 = "dict_setitem s flat_item k ?v"
    have 1: "flat_item < length (dicts ?s1)" using Cons.prems(1) by (simp add: dict_setitem_def)
    have 2: "item_at ?s1 item = item_at s item"
      using Cons.prems(2) by (simp add: item_at_def dict_setitem_def)
    have 3: "dicts ?s1 ! flat_item = flatten_key (item_at s item) k (dicts s ! flat_item)"
      using Cons.prems(1) True by (simp add: dict_setitem_def flatten_key_def)
    have "flatten_keys_st s item flat_item (k # ks) = flatten_keys_st ?s1 item flat_item ks"
      using True by simp
    also have "\<dots> = ?s1\<lparr>dicts := (dicts ?s1)[flat_item :=
        fold (flatten_key (item_at ?s1 item)) ks (dicts ?s1 ! flat_item)]\<rparr>"
      using 1 Cons.prems(2) by (rule Cons.IH)
    also have "\<dots> = s\<lparr>dicts := (dicts s)[flat_item :=
        fold (flatten_key (item_at s item)) (k # ks) (dicts s ! flat_item)]\<rparr>"
      unfolding 2 3 by (simp add: dict_setitem_def)
    finally show ?thesis .
  qed
qed


lemma prepare_step_closed:
  assumes "item < length (dicts s)"
  shows "list_append (flatten_keys_st (fst (new_dict s (dicts s ! item))) item
            (length (dicts s)) sort_keys) p (length (dicts s)) =
    s\<lparr>dicts := dicts s @ [flat_of s sort_keys item],
      lists := (lists s)[p := lists s ! p @ [length (dicts s)]]\<rparr>"
proof -
  let ?s1 = "fst (new_dict s (dicts s ! item))"
  have d1: "dicts ?s1 = dicts s @ [dicts s ! item]" and l1: "lists ?s1 = lists s"
    by (simp_all add: new_dict_def)
  have i1: "item_at ?s1 item = item_at s item"
    using assms by (simp add: item_at_def d1 nth_append)
  have "flatten_keys_st ?s1 item (length (dicts s)) sort_keys =
      ?s1\<lparr>dicts := (dicts ?s1)[length (dicts s) :=
        fold (flatten_key (item_at ?s1 item)) sort_keys (dicts ?s1 ! length (dicts s))]\<rparr>"
    using assms by (intro flatten_keys_st_closed) (simp_all add: d1)
  also have "\<dots> = s\<lparr>dicts := dicts s @ [flat_of s sort_keys item]\<rparr>"
    unfolding i1 by (simp add: d1 new_dict_def flat_of_def)
  finally show ?thesis by (simp add: list_append_def)
qed

lemma prepare_loop_st_closed:
  assumes "\<forall>a \<in> set items. a < length (dicts s)" and "p < length (lists s)"
  shows "prepare_loop_st s p items sort_keys =
    s\<lparr>dicts := dicts s @ map (flat_of s sort_keys) items,
      lists := (lists s)[p := lists s ! p @ [length (dicts s) ..< length (dicts s) + length items]]\<rparr>"
  using assms
proof (induction items arbitrary: s)
  case Nil
  then show ?case by simp
next
  case (Cons item items)
  let ?n = "length (dicts s)"
  let ?s3 = "s\<lparr>dicts := dicts s @ [flat_of s sort_keys item],
      lists := (lists s)[p := lists s ! p @ [?n]]\<rparr>"
  have item: "item < ?n" using Cons.prems(1) by simp
  have step: "prepare_loop_st s p (item # items) sort_keys = prepare_loop_st ?s3 p items sort_keys"
    using prepare_step_closed[OF item, of sort_keys p] by (simp add: new_dict_def)
  have same: "flat_of ?s3 sort_keys a = flat_of s sort_keys a" if "a \<in> set items" for a
    using Cons.prems(1) that by (simp add: flat_of_def item_at_def nth_append)
  have "prepare_loop_st ?s3 p items sort_keys =
      ?s3\<lparr>dicts := dicts ?s3 @ map (flat_of ?s3 sort_keys) items,
        lists := (lists ?s3)[p := lists ?s3 ! p @ [length (dicts ?s3) ..< length (dicts ?s3) + length items]]\<rparr>"
    using Cons.prems by (intro Cons.IH) auto
  also have "map (flat_of ?s3 sort_keys) items = map (flat_of s sort_keys) items"
    using same by (intro map_cong) auto
  finally have fin: "prepare_loop_st ?s3 p items sort_keys =
      ?s3\<lparr>dicts := dicts ?s3 @ map (flat_of s sort_keys) items,
        lists := (lists ?s3)[p := lists ?s3 ! p @ [length (dicts ?s3) ..< length (dicts ?s3) + length items]]\<rparr>" .
  have u: "[?n ..< ?n + length (item # items)] = ?n # [Suc ?n ..< Suc ?n + length items]"
    by (simp add: upt_conv_Cons del: upt_Suc)
  show ?case
    unfolding step fin u using Cons.prems(2) by (simp del: upt_Suc)
qed


lemma collect_prepare_item:
  "collect (prepare_item sort_keys) (map (item_at s) items) =
    Inr (map (\<lambda>a. JDict (flat_of s sort_keys a)) items)"
  by (induction items) (simp_all add: item_at_def flat_of_def)

lemma map_nth_append_upt: "map (\<lambda>j. f ((xs @ ys) ! j)) [length xs ..< length xs + length ys] = map f ys"
  by (rule nth_equalityI) (simp_all add: nth_append)

lemma prepare_st_closed:
  assumes "\<forall>a \<in> set (lists s ! data). a < length (dicts s)"
    and "prepare_data_with_nested_keys_st s data sort_keys = (s', p)"
  shows "p = length (lists s)"
    and "dicts s' = dicts s @ map (flat_of s sort_keys) (lists s ! data)"
    and "lists s' ! p = [length (dicts s) ..< length (dicts s) + length (lists s ! data)]"
proof -
  let ?s0 = "fst (new_list s [])"
  have p: "p = length (lists s)"
    and s': "s' = prepare_loop_st ?s0 p (lists s ! data) sort_keys"
    using assms(2) by (auto simp: prepare_data_with_nested_keys_st_def new_list_def)
  have d0: "dicts ?s0 = dicts s" and l0: "lists ?s0 = lists s @ [[]]"
    by (simp_all add: new_list_def)
  have f0: "flat_of ?s0 sort_keys = flat_of s sort_keys"
    by (rule ext) (simp add: flat_of_def item_at_def d0)
  have c: "s' = ?s0\<lparr>dicts := dicts ?s0 @ map (flat_of ?s0 sort_keys) (lists s ! data),
      lists := (lists ?s0)[p := lists ?s0 ! p @
        [length (dicts ?s0) ..< length (dicts ?s0) + length (lists s ! data)]]\<rparr>"
    unfolding s' using assms(1) by (intro prepare_loop_st_closed) (simp_all add: d0 l0 p)
  show "p = length (lists s)" by (rule p)
  show "dicts s' = dicts s @ map (flat_of s sort_keys) (lists s ! data)"
    by (subst c) (simp add: d0 f0)
  show "lists s' ! p = [length (dicts s) ..< length (dicts s) + length (lists s ! data)]"
    by (subst c) (simp add: d0 l0 p del: upt_Suc)
qed

lemma prepare_st_refines:
  assumes "\<forall>a \<in> set (lists s ! data). a < length (dicts s)"
    and "prepare_data_with_nested_keys_st s data sort_keys = (s', p)"
  shows "prepare_data_with_nested_keys (map (item_at s) (lists s ! data)) sort_keys =
    Inr (map (item_at s') (lists s' ! p))"
proof -
  note c = prepare_st_closed[OF assms]
  have "map (item_at s') (lists s' ! p) =
      map (\<lambda>j. JDict ((dicts s @ map (flat_of s sort_keys) (lists s ! data)) ! j))
        [length (dicts s) ..< length (dicts s) + length (map (flat_of s sort_keys) (lists s ! data))]"
    by (simp add: c(2,3) item_at_def del: upt_Suc)
  also have "\<dots> = map JDict (map (flat_of s sort_keys) (lists s ! data))"
    by (rule map_nth_append_upt)
  finally show ?thesis
    by (simp add: prepare_data_with_nested_keys_def collect_prepare_item comp_def)
qed

lemma prepare_st_copies_fresh:
  assumes "\<forall>a \<in> set (lists s ! data). a < length (dicts s)"
    and "prepare_data_with_nested_keys_st s data sort_keys = (s', p)"
  shows "\<forall>a \<in> set (lists s' ! p). fresh s (DictRef a)"
  using prepare_st_closed(3)[OF assms] by simp


lemma collect_map: "collect f (map g xs) = collect (\<lambda>a. f (g a)) xs"
  by (induction xs) (simp_all split: sum.splits)

lemma run_ascending_map:
  "run_ascending (apsnd g prev) (map (apsnd g) xs) = run_ascending prev xs"
  by (induction xs arbitrary: prev) (simp_all split: sum.splits bool.splits)

lemma run_descending_map:
  "run_descending (apsnd g prev) (map (apsnd g) xs) = run_descending prev xs"
  by (induction xs arbitrary: prev) (simp_all split: sum.splits bool.splits)

lemma count_run_map: "count_run (map (apsnd g) ps) = count_run ps"
  by (cases ps rule: count_run.cases)
     (simp_all add: run_ascending_map run_descending_map split: sum.splits bool.splits)

lemma binary_insert_map:
  "binary_insert (apsnd g x) (map (apsnd g) w) =
    (case binary_insert x w of Inl e \<Rightarrow> Inl e | Inr w' \<Rightarrow> Inr (map (apsnd g) w'))"
proof (induction w rule: length_induct)
  case (1 w)
  show ?case
  proof (cases "w = []")
    case True
    then show ?thesis by (simp add: binary_insert_Nil)
  next
    case False
    let ?m = "length w div 2"
    have m: "?m < length w" using middle_less[OF False] .
    have "length (take ?m w) < length w" using m by simp
    with "1.IH" have l: "binary_insert (apsnd g x) (map (apsnd g) (take ?m w)) =
        (case binary_insert x (take ?m w) of Inl e \<Rightarrow> Inl e | Inr w' \<Rightarrow> Inr (map (apsnd g) w'))"
      by blast
    have "length (drop (Suc ?m) w) < length w" using m by simp
    with "1.IH" have r: "binary_insert (apsnd g x) (map (apsnd g) (drop (Suc ?m) w)) =
        (case binary_insert x (drop (Suc ?m) w) of Inl e \<Rightarrow> Inl e | Inr w' \<Rightarrow> Inr (map (apsnd g) w'))"
      by blast
    have tk: "take ?m (map (apsnd g) w) = map (apsnd g) (take ?m w)"
      "drop ?m (map (apsnd g) w) = map (apsnd g) (drop ?m w)"
      "take (Suc ?m) (map (apsnd g) w) = map (apsnd g) (take (Suc ?m) w)"
      "drop (Suc ?m) (map (apsnd g) w) = map (apsnd g) (drop (Suc ?m) w)"
      by (simp_all add: take_map drop_map)
    have k: "fst (map (apsnd g) w ! ?m) = fst (w ! ?m)" using m by simp
    have ne: "map (apsnd g) w \<noteq> []" using False by simp
    have len: "length (map (apsnd g) w) div 2 = ?m" by simp
    show ?thesis
    proof (cases "lt_list (fst x) (fst (w ! ?m))")
      case (Inl e)
      have "binary_insert (apsnd g x) (map (apsnd g) w) = Inl e"
        by (subst binary_insert.simps) (simp only: ne len k fst_apsnd Inl if_False sum.case)
      moreover have "binary_insert x w = Inl e"
        by (subst binary_insert.simps) (simp only: False Inl if_False sum.case)
      ultimately show ?thesis by simp
    next
      case (Inr b)
      show ?thesis
      proof (cases b)
        case True
        have "binary_insert (apsnd g x) (map (apsnd g) w) =
            (case binary_insert (apsnd g x) (map (apsnd g) (take ?m w)) of
              Inl e \<Rightarrow> Inl e
            | Inr l \<Rightarrow> Inr (l @ map (apsnd g) (drop ?m w)))"
          by (subst binary_insert.simps)
             (simp only: ne len k fst_apsnd Inr True if_False sum.case bool.case tk)
        moreover have "binary_insert x w =
            (case binary_insert x (take ?m w) of
              Inl e \<Rightarrow> Inl e
            | Inr l \<Rightarrow> Inr (l @ drop ?m w))"
          by (subst binary_insert.simps) (simp only: False Inr True if_False sum.case bool.case)
        ultimately show ?thesis by (simp add: l split: sum.splits)
      next
        case b: False
        have "binary_insert (apsnd g x) (map (apsnd g) w) =
            (case binary_insert (apsnd g x) (map (apsnd g) (drop (Suc ?m) w)) of
              Inl e \<Rightarrow> Inl e
            | Inr r \<Rightarrow> Inr (map (apsnd g) (take (Suc ?m) w) @ r))"
          by (subst binary_insert.simps)
             (simp only: ne len k fst_apsnd Inr b if_False sum.case bool.case tk)
        moreover have "binary_insert x w =
            (case binary_insert x (drop (Suc ?m) w) of
              Inl e \<Rightarrow> Inl e
            | Inr r \<Rightarrow> Inr (take (Suc ?m) w @ r))"
          by (subst binary_insert.simps) (simp only: False Inr b if_False sum.case bool.case)
        ultimately show ?thesis by (simp add: r split: sum.splits)
      qed
    qed
  qed
qed

lemma binarysort_map:
  "binarysort (map (apsnd g) run) (map (apsnd g) xs) =
    (case binarysort run xs of Inl e \<Rightarrow> Inl e | Inr ps \<Rightarrow> Inr (map (apsnd g) ps))"
proof (induction xs arbitrary: run)
  case Nil
  then show ?case by simp
next
  case (Cons x xs)
  show ?case
  proof (cases "binary_insert x run")
    case (Inl e)
    then show ?thesis by (simp add: binary_insert_map)
  next
    case (Inr run')
    then show ?thesis using Cons.IH[of run'] by (simp add: binary_insert_map)
  qed
qed

lemma listsort_map:
  "listsort (map (apsnd g) ps) =
    (case listsort ps of Inl e \<Rightarrow> Inl e | Inr out \<Rightarrow> Inr (map (apsnd g) out))"
proof (cases "count_run ps")
  case (Inl e)
  then show ?thesis by (simp add: listsort_def count_run_map)
next
  case (Inr nd)
  obtain n d where nd: "nd = (n, d)" by (cases nd)
  show ?thesis
  proof (cases d)
    case True
    then show ?thesis
      using binarysort_map[of g "rev (take n ps)" "drop n ps"]
      by (simp add: listsort_def count_run_map Inr nd take_map drop_map rev_map)
  next
    case False
    then show ?thesis
      using binarysort_map[of g "take n ps" "drop n ps"]
      by (simp add: listsort_def count_run_map Inr nd take_map drop_map)
  qed
qed

lemma py_sorted_map:
  "py_sorted f (map g xs) =
    (case py_sorted (\<lambda>a. f (g a)) xs of Inl e \<Rightarrow> Inl e | Inr ys \<Rightarrow> Inr (map g ys))"
proof (cases "collect (\<lambda>a. f (g a)) xs")
  case (Inl e)
  then show ?thesis by (simp add: py_sorted_def collect_map)
next
  case (Inr ks)
  have z: "zip ks (map g xs) = map (apsnd g) (zip ks xs)"
    by (simp add: zip_map2 apsnd_def map_prod_def)
  show ?thesis
    using listsort_map[of g "zip ks xs"]
    by (simp add: py_sorted_def collect_map Inr z comp_def split: sum.splits)
qed

lemma sorted_st_refines:
  assumes "sort_json_data_st loads s (ListRef l) sort_keys reverse strat = Inr (s', ListRef r)"
  shows "sort_json_data loads (JList (map (item_at s) (lists s ! l))) sort_keys reverse strat =
    Inr (JList (map (item_at s') (lists s' ! r)))"
proof -
  from assms obtain rl refs where n: "normalize_reverse sort_keys reverse = Inr rl"
    and p: "py_sorted (\<lambda>a. sort_key_of strat sort_keys rl (item_at s a)) (lists s ! l) = Inr refs"
    and s': "s' = fst (new_list s refs)" and r: "r = length (lists s)"
    by (auto simp: sort_json_data_st_def sorted_st_def new_list_def split: sum.splits)
  have "item_at s' = item_at s"
    by (rule ext) (simp add: item_at_def s' new_list_def)
  moreover have "lists s' ! r = refs" by (simp add: s' r new_list_def)
  ultimately show ?thesis
    by (simp add: sort_json_data_list n py_sorted_map p)
qed

text \<open>
  C9. In the store, a successful sort leaves every dict and every list that was
  there before the call as it was and returns a reference to a new object; the
  flattening of dot-path keys likewise leaves them as they were and returns a new
  list, and (every reference of the input list pointing at a dict of the store)
  the new list holds references to new dicts only: the flattened fields are
  written to the copies.
\<close>

theorem C9_no_mutation:
  "(sort_json_data_st loads s data sort_keys reverse missing_key_strategy = Inr (s', r) \<longrightarrow>
      unchanged s s' \<and> fresh s r)
   \<and> (prepare_data_with_nested_keys_st s l sort_keys = (s1, p) \<longrightarrow>
      unchanged s s1 \<and> fresh s (ListRef p))
   \<and> ((\<forall>a \<in> set (lists s ! l). a < length (dicts s)) \<longrightarrow>
      prepare_data_with_nested_keys_st s l sort_keys = (s1, p) \<longrightarrow>
      (\<forall>a \<in> set (lists s1 ! p). fresh s (DictRef a)))"
  using sort_json_data_st_unchanged[of loads s data sort_keys reverse missing_key_strategy s' r]
    prepare_st_unchanged[of s l sort_keys s1 p]
    prepare_st_copies_fresh[of s l sort_keys s1 p]
  by blast


theorem C9_no_mutation_witness:
  "prepare_data_with_nested_keys_st example_store 0 [''user.age''] = (example_flattened, 1)
   \<and> unchanged example_store example_flattened \<and> fresh example_store (ListRef 1)
   \<and> list_all (\<lambda>a. fresh example_store (DictRef a)) (lists example_flattened ! 1)
   \<and> sort_json_data_st loads_invalid example_flattened (ListRef 1) [''user.age''] (RBool False) ''last''
      = Inr (example_sorted, ListRef 2)
   \<and> unchanged example_flattened example_sorted \<and> fresh example_flattened (ListRef 2)"
proof -
  have p: "prepare_data_with_nested_keys_st example_store 0 [''user.age''] = (example_flattened, 1)"
    by (simp add: prepare_data_with_nested_keys_st_def example_store_def example_flattened_def
        new_list_def new_dict_def list_append_def dict_setitem_def item_at_def
        get_nested_value_def)
  have w: "\<forall>a \<in> set (lists example_store ! 0). a < length (dicts example_store)"
    by (simp add: example_store_def)
  have s: "sort_json_data_st loads_invalid example_flattened (ListRef 1) [''user.age'']
      (RBool False) ''last'' = Inr (example_sorted, ListRef 2)"
    by (simp add: sort_json_data_st_def sorted_st_def example_flattened_def example_sorted_def
        normalize_reverse_def py_sorted_def listsort_def binary_insert.simps sort_key_of_def get_sort_value_def item_at_def
        new_list_def)
  from C9_no_mutation[where loads = loads_invalid and s = example_flattened
      and data = "ListRef 1" and sort_keys = "[''user.age'']" and reverse = "RBool False"
      and missing_key_strategy = "''last''" and s' = example_sorted and r = "ListRef 2"] s
  have a: "unchanged example_flattened example_sorted \<and> fresh example_flattened (ListRef 2)"
    by blast
  from C9_no_mutation[where s = example_store and sort_keys = "[''user.age'']"
      and l = 0 and ?s1.0 = example_flattened and p = 1] p w
  have b: "unchanged example_store example_flattened \<and> fresh example_store (ListRef 1)
      \<and> (\<forall>a \<in> set (lists example_flattened ! 1). fresh example_store (DictRef a))"
    by blast
  from p s a b show ?thesis by (simp add: list_all_iff)
qed


end
